theory Spec2Isabelle
  imports Main "HOL-Library.Word" "HOL-Library.Multiset"
begin

unbundle bit_operations_syntax

section \<open>Go values and run-time panics\<close>

text \<open>
  A Go \<open>string\<close> is a sequence of bytes, as an Isabelle \<open>string\<close> is a list of 8-bit
  characters; \<open>[]byte(key)\<close> is \<open>bytesOf key\<close>. \<open>uint32\<close> wraps around. Go's \<open>int\<close> is
  64 bits wide: it is modelled by \<open>int\<close>, and \<open>goInt\<close> writes out the wrap-around of the one
  product the constructors compute.
\<close>

type_synonym uint32 = "32 word"
type_synonym uint64 = "64 word"
type_synonym byte = "8 word"

definition bytesOf :: "string \<Rightarrow> byte list" where
  "bytesOf s = map of_char s"

definition goInt :: "int \<Rightarrow> int" where
  "goInt x = sint (word_of_int x :: 64 word)"

text \<open>
  The panics of the Go run time that the routers can reach: \<open>make\<close> with a capacity
  out of range, \<open>append\<close> growing a slice past the largest size, and an index outside a
  slice.
\<close>

datatype error = CapOutOfRange | LenOutOfRange | IndexOutOfRange

text \<open>
  \<open>runtime.makeslice\<close> for length 0: it panics when the capacity is negative or when
  \<open>elemSize * cap\<close> exceeds \<open>maxAlloc\<close> (\<open>2 ^ 48\<close> bytes on 64-bit Linux). That panic
  comes before any memory is asked for. An allocation that the machine cannot serve ends
  the program with the fatal error \<open>out of memory\<close>, which is no panic: it is an ending
  of its own in \<open>newRubyHashRingRuns\<close> below, and the functions \<open>newRubyHashRing\<close> and
  \<open>newRubyStyleHash\<close> give what a run does whose allocations are all served.
\<close>

definition maxAlloc :: int where
  "maxAlloc = 2 ^ 48"

definition makesliceOK :: "int \<Rightarrow> int \<Rightarrow> bool" where
  "makesliceOK elemSize cap \<longleftrightarrow> 0 \<le> cap \<and> elemSize * cap \<le> maxAlloc"

text \<open>\<open>xs[i]\<close>: a panic outside \<open>0 \<le> i < len(xs)\<close>.\<close>

definition sliceIndex :: "'a list \<Rightarrow> int \<Rightarrow> error + 'a" where
  "sliceIndex xs i =
     (if 0 \<le> i \<and> i < int (length xs) then Inr (xs ! nat i) else Inl IndexOutOfRange)"

section \<open>\<open>hash/crc32\<close>: ChecksumIEEE\<close>

text \<open>
  The table-driven CRC-32 of Go's standard library (\<open>simpleMakeTable\<close>,
  \<open>simpleUpdate\<close>), polynomial \<open>IEEE = 0xedb88320\<close>; a table entry is computed where the
  library reads it from the table.
\<close>

definition IEEE :: uint32 where
  "IEEE = 0xedb88320"

fun tableStep :: "nat \<Rightarrow> uint32 \<Rightarrow> uint32" where
  "tableStep 0 crc = crc"
| "tableStep (Suc j) crc =
     tableStep j (if crc AND 1 = 1 then (drop_bit 1 crc) XOR IEEE else drop_bit 1 crc)"

definition IEEETable :: "byte \<Rightarrow> uint32" where
  "IEEETable i = tableStep 8 (ucast i)"

fun simpleUpdateLoop :: "uint32 \<Rightarrow> byte list \<Rightarrow> uint32" where
  "simpleUpdateLoop crc [] = crc"
| "simpleUpdateLoop crc (v # p) =
     simpleUpdateLoop (IEEETable ((ucast crc) XOR v) XOR (drop_bit 8 crc)) p"

definition simpleUpdate :: "uint32 \<Rightarrow> byte list \<Rightarrow> uint32" where
  "simpleUpdate crc p = NOT (simpleUpdateLoop (NOT crc) p)"

definition ChecksumIEEE :: "byte list \<Rightarrow> uint32" where
  "ChecksumIEEE data = simpleUpdate 0 data"

section \<open>\<open>crypto/md5\<close> and \<open>encoding/binary\<close>\<close>

text \<open>
  \<open>md5.Sum\<close> as RFC 1321 and Go's \<open>blockGeneric\<close> compute it: the message is padded
  with \<open>0x80\<close>, zeros up to 56 modulo 64 and the bit length as 8 little-endian bytes; each
  64-byte block is read as 16 little-endian words and run through 64 steps; the digest is
  the four state words, little-endian.
\<close>

definition RotateLeft32 :: "uint32 \<Rightarrow> nat \<Rightarrow> uint32" where
  "RotateLeft32 x k = push_bit k x OR drop_bit (32 - k) x"

definition md5K :: "uint32 list" where
  "md5K =
    [0xd76aa478, 0xe8c7b756, 0x242070db, 0xc1bdceee, 0xf57c0faf, 0x4787c62a, 0xa8304613,
     0xfd469501, 0x698098d8, 0x8b44f7af, 0xffff5bb1, 0x895cd7be, 0x6b901122, 0xfd987193,
     0xa679438e, 0x49b40821, 0xf61e2562, 0xc040b340, 0x265e5a51, 0xe9b6c7aa, 0xd62f105d,
     0x02441453, 0xd8a1e681, 0xe7d3fbc8, 0x21e1cde6, 0xc33707d6, 0xf4d50d87, 0x455a14ed,
     0xa9e3e905, 0xfcefa3f8, 0x676f02d9, 0x8d2a4c8a, 0xfffa3942, 0x8771f681, 0x6d9d6122,
     0xfde5380c, 0xa4beea44, 0x4bdecfa9, 0xf6bb4b60, 0xbebfbc70, 0x289b7ec6, 0xeaa127fa,
     0xd4ef3085, 0x04881d05, 0xd9d4d039, 0xe6db99e5, 0x1fa27cf8, 0xc4ac5665, 0xf4292244,
     0x432aff97, 0xab9423a7, 0xfc93a039, 0x655b59c3, 0x8f0ccc92, 0xffeff47d, 0x85845dd1,
     0x6fa87e4f, 0xfe2ce6e0, 0xa3014314, 0x4e0811a1, 0xf7537e82, 0xbd3af235, 0x2ad7d2bb,
     0xeb86d391]"

definition md5S :: "nat list" where
  "md5S =
    [7, 12, 17, 22, 7, 12, 17, 22, 7, 12, 17, 22, 7, 12, 17, 22,
     5, 9, 14, 20, 5, 9, 14, 20, 5, 9, 14, 20, 5, 9, 14, 20,
     4, 11, 16, 23, 4, 11, 16, 23, 4, 11, 16, 23, 4, 11, 16, 23,
     6, 10, 15, 21, 6, 10, 15, 21, 6, 10, 15, 21, 6, 10, 15, 21]"

definition md5G :: "nat \<Rightarrow> nat" where
  "md5G i = (if i < 16 then i else if i < 32 then (5 * i + 1) mod 16
             else if i < 48 then (3 * i + 5) mod 16 else (7 * i) mod 16)"

definition md5F :: "nat \<Rightarrow> uint32 \<Rightarrow> uint32 \<Rightarrow> uint32 \<Rightarrow> uint32" where
  "md5F i b c d = (if i < 16 then ((c XOR d) AND b) XOR d
                   else if i < 32 then ((b XOR c) AND d) XOR c
                   else if i < 48 then b XOR c XOR d
                   else c XOR (b OR NOT d))"

type_synonym md5state = "uint32 \<times> uint32 \<times> uint32 \<times> uint32"

fun md5Rounds ::
  "uint32 list \<Rightarrow> nat \<Rightarrow> uint32 list \<Rightarrow> nat list \<Rightarrow> md5state \<Rightarrow> md5state" where
  "md5Rounds x i (k # ks) (s # ss) (a, b, c, d) =
     md5Rounds x (i + 1) ks ss
       (d, b + RotateLeft32 (md5F i b c d + a + x ! md5G i + k) s, b, c)"
| "md5Rounds x i _ _ st = st"

fun le32 :: "byte list \<Rightarrow> uint32" where
  "le32 (b0 # b1 # b2 # b3 # _) =
     ucast b0 OR push_bit 8 (ucast b1) OR push_bit 16 (ucast b2) OR push_bit 24 (ucast b3)"
| "le32 _ = 0"

fun blockWords :: "nat \<Rightarrow> byte list \<Rightarrow> uint32 list" where
  "blockWords 0 p = []"
| "blockWords (Suc n) p = le32 p # blockWords n (drop 4 p)"

fun addState :: "md5state \<Rightarrow> md5state \<Rightarrow> md5state" where
  "addState (a, b, c, d) (aa, bb, cc, dd) = (a + aa, b + bb, c + cc, d + dd)"

function blockGeneric :: "md5state \<Rightarrow> byte list \<Rightarrow> md5state" where
  "blockGeneric st p =
     (if length p < 64 then st
      else blockGeneric (addState (md5Rounds (blockWords 16 (take 64 p)) 0 md5K md5S st) st)
             (drop 64 p))"
  by pat_completeness auto
termination
  by (relation "measure (\<lambda>(st, p). length p)") auto

declare blockGeneric.simps [simp del]

definition putUint32LE :: "uint32 \<Rightarrow> byte list" where
  "putUint32LE v = [ucast v, ucast (drop_bit 8 v), ucast (drop_bit 16 v), ucast (drop_bit 24 v)]"

definition putUint64LE :: "uint64 \<Rightarrow> byte list" where
  "putUint64LE v =
     [ucast v, ucast (drop_bit 8 v), ucast (drop_bit 16 v), ucast (drop_bit 24 v),
      ucast (drop_bit 32 v), ucast (drop_bit 40 v), ucast (drop_bit 48 v), ucast (drop_bit 56 v)]"

definition md5Pad :: "byte list \<Rightarrow> byte list" where
  "md5Pad data =
     data @ [0x80] @ replicate ((55 + 64 - length data mod 64) mod 64) 0
       @ putUint64LE (push_bit 3 (of_nat (length data)))"

definition md5Init :: md5state where
  "md5Init = (0x67452301, 0xefcdab89, 0x98badcfe, 0x10325476)"

definition md5Sum :: "byte list \<Rightarrow> byte list" where
  "md5Sum data =
     (case blockGeneric md5Init (md5Pad data) of
        (a, b, c, d) \<Rightarrow> putUint32LE a @ putUint32LE b @ putUint32LE c @ putUint32LE d)"

text \<open>
  \<open>binary.BigEndian.Uint32(b)\<close> is
  \<open>uint32(b[3]) | uint32(b[2])<<8 | uint32(b[1])<<16 | uint32(b[0])<<24\<close>. Its argument
  in \<open>serverHashFor\<close> is \<open>sum[:4]\<close> of the 16-byte array \<open>md5.Sum\<close> returns, so the four
  reads are in range (\<open>length_md5Sum\<close> below).
\<close>

definition BigEndianUint32 :: "byte list \<Rightarrow> uint32" where
  "BigEndianUint32 b =
     ucast (b ! 3) OR push_bit 8 (ucast (b ! 2)) OR push_bit 16 (ucast (b ! 1))
       OR push_bit 24 (ucast (b ! 0))"

definition serverHashFor :: "string \<Rightarrow> uint32" where
  "serverHashFor key = BigEndianUint32 (take 4 (md5Sum (bytesOf key)))"

section \<open>\<open>fmt.Sprintf("%s:%d", name, i)\<close>\<close>

function natDigits :: "nat \<Rightarrow> string" where
  "natDigits n =
     (if n < 10 then [''0123456789'' ! n]
      else natDigits (n div 10) @ [''0123456789'' ! (n mod 10)])"
  by pat_completeness auto
termination
  by (relation "measure (\<lambda>n. n)") auto

declare natDigits.simps [simp del]

definition formatInt :: "int \<Rightarrow> string" where
  "formatInt i = (if i < 0 then CHR ''-'' # natDigits (nat (- i)) else natDigits (nat i))"

definition virtualKey :: "string \<Rightarrow> int \<Rightarrow> string" where
  "virtualKey s i = s @ '':'' @ formatInt i"

section \<open>go-ring-custom: \<open>rubyHashRing\<close>\<close>

record shardConfig =
  Name :: string
  Addr :: string

text \<open>
  A \<open>*node\<close> is modelled by the node's value; its \<open>client\<close>, which
  \<open>redis.NewClient\<close> builds from the address without connecting, by that address.
  \<open>None\<close> is the \<open>nil\<close> pointer. Two configurations with the same name and address
  give two pointers in Go and one value here; no statement below tells them apart.
\<close>

record node =
  name :: string
  client :: string

record rubyHashRing =
  replicas :: int
  sortedKeys :: "uint32 list"
  ring :: "uint32 \<rightharpoonup> node"
  nodes :: "node list"

definition newNode :: "shardConfig \<Rightarrow> node" where
  "newNode cfg = \<lparr>name = Name cfg, client = Addr cfg\<rparr>"

text \<open>The inner loop \<open>for i := 0; i < replicas; i++\<close> of \<open>newRubyHashRing\<close>.\<close>

function replicaLoop :: "string \<Rightarrow> node \<Rightarrow> int \<Rightarrow> int \<Rightarrow> rubyHashRing \<Rightarrow> rubyHashRing" where
  "replicaLoop cfgName n reps i r =
     (if i < reps then
        (let hash = serverHashFor (virtualKey cfgName i)
         in replicaLoop cfgName n reps (i + 1)
              (r\<lparr>ring := (ring r)(hash \<mapsto> n), sortedKeys := sortedKeys r @ [hash]\<rparr>))
      else r)"
  by pat_completeness auto
termination
  by (relation "measure (\<lambda>(cfgName, n, reps, i, r). nat (reps - i))") auto

declare replicaLoop.simps [simp del]

text \<open>The outer loop \<open>for _, cfg := range configs\<close>.\<close>

fun configLoop :: "shardConfig list \<Rightarrow> int \<Rightarrow> rubyHashRing \<Rightarrow> rubyHashRing" where
  "configLoop [] reps r = r"
| "configLoop (cfg # cfgs) reps r =
     (let n = newNode cfg
      in configLoop cfgs reps (replicaLoop (Name cfg) n reps 0 (r\<lparr>nodes := nodes r @ [n]\<rparr>)))"

text \<open>
  \<open>sort.Slice\<close> with \<open>sortedKeys[i] < sortedKeys[j]\<close>: the ascending rearrangement of
  the 32-bit values, which is unique, so \<open>sort\<close> is what every sorting algorithm returns.
\<close>

definition newRubyHashRing :: "shardConfig list \<Rightarrow> int \<Rightarrow> error + rubyHashRing" where
  "newRubyHashRing configs reps =
     (if \<not> makesliceOK 4 (goInt (reps * int (length configs))) then Inl CapOutOfRange
      else
        (let r0 = \<lparr>replicas = reps, sortedKeys = [], ring = Map.empty, nodes = []\<rparr>;
             r1 = configLoop configs reps r0
         in Inr (r1\<lparr>sortedKeys := sort (sortedKeys r1)\<rparr>)))"

text \<open>
  How a run of \<open>newRubyHashRing\<close> can end. The function has no error result: a run
  returns the ring, panics, or is ended by the runtime. Every run allocates (the map, the
  slices, the nodes), and an allocation that the machine cannot serve ends the program
  with the fatal error \<open>out of memory\<close>, so that ending belongs to every call.
  \<open>append\<close> grows \<open>sortedKeys\<close> (\<open>runtime.growslice\<close>) only when the capacity asked of
  \<open>make\<close> was too small, that is when \<open>replicas * len(configs)\<close> has wrapped; no slice
  holds more than \<open>maxAlloc\<close> bytes, and the \<open>append\<close> that would pass that size panics
  with \<open>growslice: len out of range\<close>, unless memory has run out before. Which ending a
  call takes depends on the memory of the machine; the set holds every ending that a
  machine can give.
\<close>

datatype 'a ending = Returns 'a | Panics error | FatalOutOfMemory

definition newRubyHashRingRuns :: "shardConfig list \<Rightarrow> int \<Rightarrow> rubyHashRing ending set" where
  "newRubyHashRingRuns configs reps =
     (case newRubyHashRing configs reps of
        Inl e \<Rightarrow> {Panics e, FatalOutOfMemory}
      | Inr r \<Rightarrow>
          if 4 * int (length (sortedKeys r)) \<le> maxAlloc then {Returns r, FatalOutOfMemory}
          else {Panics LenOutOfRange, FatalOutOfMemory})"

text \<open>
  The loop of \<open>binarySearch\<close>. \<open>lower\<close> and \<open>upper\<close> start at \<open>0\<close> and
  \<open>len(sortedKeys)\<close> and never become negative, so Go's truncating \<open>/\<close> is \<open>div\<close> here.
\<close>

function binarySearchLoop :: "uint32 list \<Rightarrow> uint32 \<Rightarrow> int \<Rightarrow> int \<Rightarrow> error + int" where
  "binarySearchLoop keys v lower upper =
     (if lower < upper then
        (let mid = (lower + upper) div 2
         in case sliceIndex keys mid of
              Inl e \<Rightarrow> Inl e
            | Inr k \<Rightarrow>
                if k > v then binarySearchLoop keys v lower mid
                else binarySearchLoop keys v (mid + 1) upper)
      else Inr (upper - 1))"
  by pat_completeness auto
termination
  by (relation "measure (\<lambda>(keys, v, lower, upper). nat (upper - lower))") auto

declare binarySearchLoop.simps [simp del]

definition binarySearch :: "rubyHashRing \<Rightarrow> uint32 \<Rightarrow> error + int" where
  "binarySearch r v = binarySearchLoop (sortedKeys r) v 0 (int (length (sortedKeys r)))"

definition getNode :: "rubyHashRing \<Rightarrow> string \<Rightarrow> error + node option" where
  "getNode r key =
     (if length (sortedKeys r) = 0 then Inr None
      else
        (let hash = ChecksumIEEE (bytesOf key)
         in case binarySearch r hash of
              Inl e \<Rightarrow> Inl e
            | Inr idx0 \<Rightarrow>
                (let idx = (if idx0 < 0 then int (length (sortedKeys r)) - 1 else idx0)
                 in case sliceIndex (sortedKeys r) idx of
                      Inl e \<Rightarrow> Inl e
                    | Inr nodeKey \<Rightarrow> Inr (ring r nodeKey))))"

text \<open>\<open>main\<close>: the shard name written for a key is \<open>""\<close> for \<open>nil\<close>.\<close>

definition shardName :: "node option \<Rightarrow> string" where
  "shardName nd = (case nd of None \<Rightarrow> [] | Some n \<Rightarrow> name n)"

section \<open>go-ring-consistenthash: \<open>rubyStyleHash\<close>\<close>

record rubyStyleHash =
  replicas :: int
  sortedKeys :: "uint32 list"
  ring :: "uint32 \<rightharpoonup> string"

function shardLoop :: "string \<Rightarrow> int \<Rightarrow> int \<Rightarrow> rubyStyleHash \<Rightarrow> rubyStyleHash" where
  "shardLoop shard reps i h =
     (if i < reps then
        (let hash = serverHashFor (virtualKey shard i)
         in shardLoop shard reps (i + 1)
              (h\<lparr>rubyStyleHash.ring := (rubyStyleHash.ring h)(hash \<mapsto> shard),
                 rubyStyleHash.sortedKeys := rubyStyleHash.sortedKeys h @ [hash]\<rparr>))
      else h)"
  by pat_completeness auto
termination
  by (relation "measure (\<lambda>(shard, reps, i, h). nat (reps - i))") auto

declare shardLoop.simps [simp del]

fun shardsLoop :: "string list \<Rightarrow> int \<Rightarrow> rubyStyleHash \<Rightarrow> rubyStyleHash" where
  "shardsLoop [] reps h = h"
| "shardsLoop (shard # shards) reps h = shardsLoop shards reps (shardLoop shard reps 0 h)"

text \<open>
  \<open>make(map[uint32]string, hint)\<close> takes any hint; the slice's capacity panics as in
  \<open>newRubyHashRing\<close>.
\<close>

definition newRubyStyleHash :: "string list \<Rightarrow> int \<Rightarrow> error + rubyStyleHash" where
  "newRubyStyleHash shards reps =
     (if \<not> makesliceOK 4 (goInt (reps * int (length shards))) then Inl CapOutOfRange
      else
        (let h0 = \<lparr>rubyStyleHash.replicas = reps, sortedKeys = [], ring = Map.empty\<rparr>;
             h1 = shardsLoop shards reps h0
         in Inr (h1\<lparr>rubyStyleHash.sortedKeys := sort (rubyStyleHash.sortedKeys h1)\<rparr>)))"

text \<open>
  \<open>sort.Search(n, f)\<close> of the standard library: \<open>i, j := 0, n\<close>, and while
  \<open>i < j\<close> the middle \<open>h := int(uint(i+j) >> 1)\<close> (which is \<open>(i + j) div 2\<close>, as
  \<open>0 \<le> i + j\<close>) replaces \<open>i\<close> by \<open>h + 1\<close> when \<open>f(h)\<close> is false and \<open>j\<close> by \<open>h\<close>
  otherwise. The predicate may panic.
\<close>

function SearchLoop :: "(int \<Rightarrow> error + bool) \<Rightarrow> int \<Rightarrow> int \<Rightarrow> error + int" where
  "SearchLoop f i j =
     (if i < j then
        (let h = (i + j) div 2
         in case f h of
              Inl e \<Rightarrow> Inl e
            | Inr b \<Rightarrow> if \<not> b then SearchLoop f (h + 1) j else SearchLoop f i h)
      else Inr i)"
  by pat_completeness auto
termination
  by (relation "measure (\<lambda>(f, i, j). nat (j - i))") auto

declare SearchLoop.simps [simp del]

definition Search :: "int \<Rightarrow> (int \<Rightarrow> error + bool) \<Rightarrow> error + int" where
  "Search n f = SearchLoop f 0 n"

definition Get :: "rubyStyleHash \<Rightarrow> string \<Rightarrow> error + string" where
  "Get h key =
     (if length (rubyStyleHash.sortedKeys h) = 0 then Inr []
      else
        (let hash = ChecksumIEEE (bytesOf key)
         in case Search (int (length (rubyStyleHash.sortedKeys h)))
                  (\<lambda>i. case sliceIndex (rubyStyleHash.sortedKeys h) i of
                          Inl e \<Rightarrow> Inl e
                        | Inr k \<Rightarrow> Inr (k \<ge> hash)) of
              Inl e \<Rightarrow> Inl e
            | Inr idx0 \<Rightarrow>
                (let idx = (if idx0 = int (length (rubyStyleHash.sortedKeys h)) then 0 else idx0)
                 in case sliceIndex (rubyStyleHash.sortedKeys h) idx of
                      Inl e \<Rightarrow> Inl e
                    | Inr k \<Rightarrow>
                        Inr (case rubyStyleHash.ring h k of None \<Rightarrow> [] | Some s \<Rightarrow> s))))"

text \<open>
  \<open>normalizeForGoRedis\<close>, which \<open>main\<close> of this program applies to a key before
  \<open>Get\<close>: the text between the first \<open>{\<close> and the next \<open>}\<close>, when there is one and it
  is not empty. \<open>strings.IndexByte\<close> returns \<open>-1\<close> when the byte does not occur.
\<close>

fun IndexByte :: "string \<Rightarrow> char \<Rightarrow> int" where
  "IndexByte [] c = - 1"
| "IndexByte (x # xs) c =
     (if x = c then 0 else (let i = IndexByte xs c in if i = - 1 then - 1 else i + 1))"

definition normalizeForGoRedis :: "string \<Rightarrow> string" where
  "normalizeForGoRedis key =
     (let start = IndexByte key CHR ''{'' in
      if start = - 1 then key
      else
        (let end = IndexByte (drop (nat (start + 1)) key) CHR ''}'' in
         if end > 0 then take (nat end) (drop (nat (start + 1)) key) else key))"

section \<open>Descriptions used in the statements\<close>

text \<open>
  The insertions \<open>ring[hash] = n\<close> of a construction, in the order the two nested loops
  make them: for each node in input order, for \<open>i\<close> from \<open>0\<close> to \<open>replicas - 1\<close>.
\<close>

definition insertions :: "shardConfig list \<Rightarrow> int \<Rightarrow> (uint32 \<times> node) list" where
  "insertions configs reps =
     concat (map (\<lambda>cfg. map (\<lambda>i. (serverHashFor (virtualKey (Name cfg) i), newNode cfg))
                            [0..reps - 1]) configs)"

definition shardInsertions :: "string list \<Rightarrow> int \<Rightarrow> (uint32 \<times> string) list" where
  "shardInsertions shards reps =
     concat (map (\<lambda>shard. map (\<lambda>i. (serverHashFor (virtualKey shard i), shard))
                              [0..reps - 1]) shards)"

text \<open>
  The two selection rules on an ascending point list. \<open>lowerBoundPoint\<close> follows the
  specification: the smallest point \<open>\<ge> h\<close>, else the point at index 0.
  \<open>predecessorPoint\<close> is the rule of \<open>Redis::HashRing\<close>: the largest point \<open>\<le> h\<close>,
  else the last point.
\<close>

definition lowerBoundPoint :: "uint32 list \<Rightarrow> uint32 \<Rightarrow> uint32" where
  "lowerBoundPoint points h =
     (if \<exists>p \<in> set points. h \<le> p then Min (set (filter (\<lambda>p. h \<le> p) points)) else points ! 0)"

definition predecessorPoint :: "uint32 list \<Rightarrow> uint32 \<Rightarrow> uint32" where
  "predecessorPoint points h =
     (if \<exists>p \<in> set points. p \<le> h then Max (set (filter (\<lambda>p. p \<le> h) points)) else last points)"

text \<open>The number a string of decimal digits denotes.\<close>

definition digitValue :: "char \<Rightarrow> nat" where
  "digitValue c = of_char c - 48"

definition decimalValue :: "string \<Rightarrow> nat" where
  "decimalValue s = foldl (\<lambda>n c. 10 * n + digitValue c) 0 s"

section \<open>Example rings\<close>

text \<open>
  Two nodes \<open>a\<close> and \<open>b\<close> with one replica each, and the ring \<open>newRubyHashRing\<close> and the
  hash \<open>newRubyStyleHash\<close> build from them (\<open>newRubyHashRing_AB\<close>,
  \<open>newRubyStyleHash_AB\<close> below): the points are the first four MD5 bytes of \<open>a:0\<close> and
  \<open>b:0\<close>.
\<close>

definition nodeA :: node where
  "nodeA = \<lparr>name = ''a'', client = ''127.0.0.1:6381''\<rparr>"

definition nodeB :: node where
  "nodeB = \<lparr>name = ''b'', client = ''127.0.0.1:6382''\<rparr>"

definition configsAB :: "shardConfig list" where
  "configsAB = [\<lparr>Name = ''a'', Addr = ''127.0.0.1:6381''\<rparr>,
                \<lparr>Name = ''b'', Addr = ''127.0.0.1:6382''\<rparr>]"

definition ringAB :: rubyHashRing where
  "ringAB = \<lparr>rubyHashRing.replicas = 1, sortedKeys = [0x1311656a, 0x3ece1176],
     ring = [0x1311656a \<mapsto> nodeA, 0x3ece1176 \<mapsto> nodeB], nodes = [nodeA, nodeB]\<rparr>"

definition hashAB :: rubyStyleHash where
  "hashAB = \<lparr>rubyStyleHash.replicas = 1, sortedKeys = [0x1311656a, 0x3ece1176],
     ring = [0x1311656a \<mapsto> ''a'', 0x3ece1176 \<mapsto> ''b'']\<rparr>"

text \<open>
  Two nodes whose virtual keys \<open>s5404:0\<close> and \<open>s7442:0\<close> have the same first four MD5
  bytes, and what the constructors build from them.
\<close>

definition nodeS1 :: node where
  "nodeS1 = \<lparr>name = ''s5404'', client = ''127.0.0.1:6381''\<rparr>"

definition nodeS2 :: node where
  "nodeS2 = \<lparr>name = ''s7442'', client = ''127.0.0.1:6382''\<rparr>"

definition configsColl :: "shardConfig list" where
  "configsColl = [\<lparr>Name = ''s5404'', Addr = ''127.0.0.1:6381''\<rparr>,
                  \<lparr>Name = ''s7442'', Addr = ''127.0.0.1:6382''\<rparr>]"

definition ringColl :: rubyHashRing where
  "ringColl = \<lparr>rubyHashRing.replicas = 1, sortedKeys = [0xf9229426, 0xf9229426],
     ring = [0xf9229426 \<mapsto> nodeS2], nodes = [nodeS1, nodeS2]\<rparr>"

definition hashColl :: rubyStyleHash where
  "hashColl = \<lparr>rubyStyleHash.replicas = 1, sortedKeys = [0xf9229426, 0xf9229426],
     ring = [0xf9229426 \<mapsto> ''s7442'']\<rparr>"

section \<open>The construction loops\<close>

lemma map_add_rev_Cons:
  "m(h \<mapsto> n) ++ map_of (rev ins) = m ++ map_of (rev ((h, n) # ins))"
  by (rule ext) (simp add: map_add_def split: option.splits)

lemma replicaLoop_eq:
  "replicaLoop nm n reps i r =
     r\<lparr>rubyHashRing.ring := rubyHashRing.ring r ++
          map_of (rev (map (\<lambda>j. (serverHashFor (virtualKey nm j), n)) [i..reps - 1])),
       rubyHashRing.sortedKeys := rubyHashRing.sortedKeys r @ map (\<lambda>j. serverHashFor (virtualKey nm j)) [i..reps - 1]\<rparr>"
proof (induction nm n reps i r rule: replicaLoop.induct)
  case (1 cfgName n reps i r)
  show ?case
  proof (cases "i < reps")
    case True
    then have u: "[i..reps - 1] = i # [i + 1..reps - 1]"
      by (simp add: upto_rec1)
    have "replicaLoop cfgName n reps i r =
        replicaLoop cfgName n reps (i + 1)
          (r\<lparr>rubyHashRing.ring := (rubyHashRing.ring r)(serverHashFor (virtualKey cfgName i) \<mapsto> n),
             rubyHashRing.sortedKeys := rubyHashRing.sortedKeys r @ [serverHashFor (virtualKey cfgName i)]\<rparr>)"
      using True by (subst replicaLoop.simps) (simp add: Let_def)
    also note "1.IH" [OF True refl]
    finally show ?thesis
      by (simp add: u map_add_rev_Cons [symmetric] fun_upd_def del: rev.simps)
  next
    case False
    then show ?thesis
      by (subst replicaLoop.simps) simp
  qed
qed

lemma configLoop_eq:
  "configLoop cfgs reps r =
     r\<lparr>rubyHashRing.nodes := rubyHashRing.nodes r @ map newNode cfgs,
       rubyHashRing.ring := rubyHashRing.ring r ++ map_of (rev (insertions cfgs reps)),
       rubyHashRing.sortedKeys := rubyHashRing.sortedKeys r @ map fst (insertions cfgs reps)\<rparr>"
proof (induction cfgs arbitrary: r)
  case Nil
  show ?case by (simp add: insertions_def)
next
  case (Cons cfg cfgs)
  show ?case
    by (simp add: Cons.IH replicaLoop_eq insertions_def Let_def o_def)
qed

lemma newRubyHashRing_Inr:
  assumes "newRubyHashRing cfgs reps = Inr r"
  shows "rubyHashRing.sortedKeys r = sort (map fst (insertions cfgs reps))"
    and "rubyHashRing.ring r = map_of (rev (insertions cfgs reps))"
    and "rubyHashRing.nodes r = map newNode cfgs"
    and "rubyHashRing.replicas r = reps"
  using assms
  by (auto simp: newRubyHashRing_def configLoop_eq Let_def split: if_splits)

lemma shardLoop_eq:
  "shardLoop shard reps i h =
     h\<lparr>rubyStyleHash.ring := rubyStyleHash.ring h ++
          map_of (rev (map (\<lambda>j. (serverHashFor (virtualKey shard j), shard)) [i..reps - 1])),
       rubyStyleHash.sortedKeys := rubyStyleHash.sortedKeys h
          @ map (\<lambda>j. serverHashFor (virtualKey shard j)) [i..reps - 1]\<rparr>"
proof (induction shard reps i h rule: shardLoop.induct)
  case (1 shard reps i h)
  show ?case
  proof (cases "i < reps")
    case True
    then have u: "[i..reps - 1] = i # [i + 1..reps - 1]"
      by (simp add: upto_rec1)
    have "shardLoop shard reps i h =
        shardLoop shard reps (i + 1)
          (h\<lparr>rubyStyleHash.ring := (rubyStyleHash.ring h)(serverHashFor (virtualKey shard i) \<mapsto> shard),
             rubyStyleHash.sortedKeys := rubyStyleHash.sortedKeys h @ [serverHashFor (virtualKey shard i)]\<rparr>)"
      using True by (subst shardLoop.simps) (simp add: Let_def)
    also note "1.IH" [OF True refl]
    finally show ?thesis
      by (simp add: u map_add_rev_Cons [symmetric] fun_upd_def del: rev.simps)
  next
    case False
    then show ?thesis
      by (subst shardLoop.simps) simp
  qed
qed

lemma shardsLoop_eq:
  "shardsLoop shards reps h =
     h\<lparr>rubyStyleHash.ring := rubyStyleHash.ring h ++ map_of (rev (shardInsertions shards reps)),
       rubyStyleHash.sortedKeys := rubyStyleHash.sortedKeys h
          @ map fst (shardInsertions shards reps)\<rparr>"
proof (induction shards arbitrary: h)
  case Nil
  show ?case by (simp add: shardInsertions_def)
next
  case (Cons shard shards)
  show ?case
    by (simp add: Cons.IH shardLoop_eq shardInsertions_def o_def)
qed

lemma newRubyStyleHash_Inr:
  assumes "newRubyStyleHash shards reps = Inr h"
  shows "rubyStyleHash.sortedKeys h = sort (map fst (shardInsertions shards reps))"
    and "rubyStyleHash.ring h = map_of (rev (shardInsertions shards reps))"
    and "rubyStyleHash.replicas h = reps"
  using assms
  by (auto simp: newRubyStyleHash_def shardsLoop_eq Let_def split: if_splits)

section \<open>Binary search on an ascending list\<close>

lemma sorted_prefix_count:
  fixes keys :: "('a :: linorder) list"
  assumes "sorted keys" and "\<And>x y. x \<le> y \<Longrightarrow> P y \<Longrightarrow> P x" and "i < length keys"
  shows "P (keys ! i) \<longleftrightarrow> i < length (filter P keys)"
  using assms(1,3)
proof (induction keys arbitrary: i)
  case Nil
  then show ?case by simp
next
  case (Cons x xs)
  show ?case
  proof (cases "P x")
    case True
    with Cons show ?thesis by (cases i) auto
  next
    case False
    with Cons.prems(1) assms(2) have none: "\<forall>y \<in> set (x # xs). \<not> P y"
      by auto
    have "(x # xs) ! i \<in> set (x # xs)"
      using Cons.prems(2) by (rule nth_mem)
    with none have "\<not> P ((x # xs) ! i)"
      by blast
    moreover from none have "filter P (x # xs) = []"
      by (simp add: filter_empty_conv)
    ultimately show ?thesis by simp
  qed
qed

lemma sliceIndex_Inr: "0 \<le> i \<Longrightarrow> i < int (length xs) \<Longrightarrow> sliceIndex xs i = Inr (xs ! nat i)"
  by (simp add: sliceIndex_def)

lemma binarySearchLoop_bounds:
  "0 \<le> lower \<Longrightarrow> lower \<le> upper \<Longrightarrow> upper \<le> int (length keys) \<Longrightarrow>
   \<exists>idx. binarySearchLoop keys v lower upper = Inr idx \<and> lower - 1 \<le> idx \<and> idx \<le> upper - 1"
proof (induction keys v lower upper rule: binarySearchLoop.induct)
  case (1 keys v lower upper)
  show ?case
  proof (cases "lower < upper")
    case False
    with "1.prems" show ?thesis
      by (subst binarySearchLoop.simps) simp
  next
    case True
    define mid where "mid = (lower + upper) div 2"
    from True "1.prems" have m: "0 \<le> mid" "lower \<le> mid" "mid < upper" "mid < int (length keys)"
      by (auto simp: mid_def)
    then have ix: "sliceIndex keys mid = Inr (keys ! nat mid)"
      by (simp add: sliceIndex_Inr)
    show ?thesis
    proof (cases "v < keys ! nat mid")
      case gt: True
      from "1.IH"(1) [OF True mid_def ix gt] "1.prems" m
      obtain idx where "binarySearchLoop keys v lower mid = Inr idx" "lower - 1 \<le> idx" "idx \<le> mid - 1"
        by auto
      with True gt ix m show ?thesis
        by (subst binarySearchLoop.simps) (simp add: mid_def [symmetric])
    next
      case le: False
      from "1.IH"(2) [OF True mid_def ix le] "1.prems" m
      obtain idx where "binarySearchLoop keys v (mid + 1) upper = Inr idx" "mid \<le> idx" "idx \<le> upper - 1"
        by auto
      with True le ix m show ?thesis
        by (subst binarySearchLoop.simps) (simp add: mid_def [symmetric])
    qed
  qed
qed

lemma binarySearchLoop_sorted:
  "sorted keys \<Longrightarrow> 0 \<le> lower \<Longrightarrow> lower \<le> int (length (filter (\<lambda>k. k \<le> v) keys)) \<Longrightarrow>
    int (length (filter (\<lambda>k. k \<le> v) keys)) \<le> upper \<Longrightarrow> upper \<le> int (length keys) \<Longrightarrow>
    binarySearchLoop keys v lower upper = Inr (int (length (filter (\<lambda>k. k \<le> v) keys)) - 1)"
proof (induction keys v lower upper rule: binarySearchLoop.induct)
  case (1 keys v lower upper)
  let ?c = "int (length (filter (\<lambda>k. k \<le> v) keys))"
  note srt = "1.prems"(1)
  show ?case
  proof (cases "lower < upper")
    case False
    with "1.prems" show ?thesis
      by (subst binarySearchLoop.simps) simp
  next
    case True
    define mid where "mid = (lower + upper) div 2"
    from True "1.prems" have m: "0 \<le> mid" "lower \<le> mid" "mid < upper" "mid < int (length keys)"
      by (auto simp: mid_def)
    then have ix: "sliceIndex keys mid = Inr (keys ! nat mid)"
      by (simp add: sliceIndex_Inr)
    have cnt: "keys ! nat mid \<le> v \<longleftrightarrow> nat mid < length (filter (\<lambda>k. k \<le> v) keys)"
      using m by (intro sorted_prefix_count [OF srt]) auto
    show ?thesis
    proof (cases "v < keys ! nat mid")
      case gt: True
      with cnt m have "?c \<le> mid" by auto
      from "1.IH"(1) [OF True mid_def ix gt srt "1.prems"(2,3) this] m
      have "binarySearchLoop keys v lower mid = Inr (?c - 1)"
        by simp
      with True gt ix show ?thesis
        by (subst binarySearchLoop.simps) (simp add: mid_def [symmetric])
    next
      case le: False
      with cnt m have "mid + 1 \<le> ?c" by auto
      from "1.IH"(2) [OF True mid_def ix le srt _ this "1.prems"(4,5)] m
      have "binarySearchLoop keys v (mid + 1) upper = Inr (?c - 1)"
        by simp
      with True le ix show ?thesis
        by (subst binarySearchLoop.simps) (simp add: mid_def [symmetric])
    qed
  qed
qed

lemma sorted_prefix_split:
  fixes keys :: "('a :: linorder) list"
  assumes "sorted keys" and dc: "\<And>x y. x \<le> y \<Longrightarrow> P y \<Longrightarrow> P x"
  defines "c \<equiv> length (filter P keys)"
  shows "\<forall>x \<in> set (take c keys). P x" and "\<forall>x \<in> set (drop c keys). \<not> P x"
proof -
  have cnt: "P (keys ! i) \<longleftrightarrow> i < c" if "i < length keys" for i
    unfolding c_def using assms(1) dc that by (rule sorted_prefix_count)
  have cl: "c \<le> length keys"
    by (simp add: c_def)
  show "\<forall>x \<in> set (take c keys). P x"
  proof
    fix x assume "x \<in> set (take c keys)"
    then obtain i where i: "i < length (take c keys)" "take c keys ! i = x"
      by (auto simp: in_set_conv_nth)
    from i(1) cl have "i < c" "i < length keys" by simp_all
    with cnt [of i] i(2) show "P x" by simp
  qed
  show "\<forall>x \<in> set (drop c keys). \<not> P x"
  proof
    fix x assume "x \<in> set (drop c keys)"
    then obtain i where i: "i < length (drop c keys)" "drop c keys ! i = x"
      by (auto simp: in_set_conv_nth)
    from i(1) cl have "c + i < length keys" by simp
    with cnt [of "c + i"] i(2) cl show "\<not> P x" by simp
  qed
qed

lemma sorted_filter_take:
  fixes keys :: "('a :: linorder) list"
  assumes "sorted keys" and dc: "\<And>x y. x \<le> y \<Longrightarrow> P y \<Longrightarrow> P x"
  shows "filter P keys = take (length (filter P keys)) keys"
    and "filter (\<lambda>x. \<not> P x) keys = drop (length (filter P keys)) keys"
proof -
  let ?c = "length (filter P keys)"
  have sp1: "\<forall>x \<in> set (take ?c keys). P x"
    by (rule sorted_prefix_split(1) [OF assms(1)]) (rule dc)
  have sp2: "\<forall>x \<in> set (drop ?c keys). \<not> P x"
    by (rule sorted_prefix_split(2) [OF assms(1)]) (rule dc)
  have a1: "filter P (take ?c keys) = take ?c keys"
    using sp1 by (simp only: filter_id_conv)
  have a2: "filter P (drop ?c keys) = []"
    using sp2 by (simp only: filter_empty_conv)
  have b1: "filter (\<lambda>x. \<not> P x) (take ?c keys) = []"
    using sp1 by (simp only: filter_empty_conv not_not)
  have b2: "filter (\<lambda>x. \<not> P x) (drop ?c keys) = drop ?c keys"
    using sp2 by (simp only: filter_id_conv)
  have "filter P keys = filter P (take ?c keys) @ filter P (drop ?c keys)"
    by (simp only: filter_append [symmetric] append_take_drop_id)
  then show "filter P keys = take ?c keys"
    by (simp only: a1 a2 append_Nil2)
  have "filter (\<lambda>x. \<not> P x) keys =
      filter (\<lambda>x. \<not> P x) (take ?c keys) @ filter (\<lambda>x. \<not> P x) (drop ?c keys)"
    by (simp only: filter_append [symmetric] append_take_drop_id)
  then show "filter (\<lambda>x. \<not> P x) keys = drop ?c keys"
    by (simp only: b1 b2 append_Nil)
qed

lemma sorted_Max_last:
  fixes xs :: "('a :: linorder) list"
  shows "sorted xs \<Longrightarrow> xs \<noteq> [] \<Longrightarrow> Max (set xs) = last xs"
proof (induction xs)
  case Nil
  then show ?case by simp
next
  case (Cons x xs)
  show ?case
  proof (cases "xs = []")
    case True
    then show ?thesis by simp
  next
    case False
    with Cons have "Max (set xs) = last xs" by simp
    moreover from False Cons.prems have "x \<le> last xs" by auto
    ultimately show ?thesis using False by (simp add: max_def)
  qed
qed

lemma sorted_Min_hd:
  fixes xs :: "('a :: linorder) list"
  shows "sorted xs \<Longrightarrow> xs \<noteq> [] \<Longrightarrow> Min (set xs) = hd xs"
  by (cases xs) (auto intro: Min_eqI)

lemma predecessorPoint_nth:
  fixes keys :: "uint32 list" and h :: uint32
  assumes "sorted keys" and "keys \<noteq> []"
  defines "c \<equiv> length (filter (\<lambda>k. k \<le> h) keys)"
  shows "predecessorPoint keys h = (if c = 0 then last keys else keys ! (c - 1))"
proof -
  have dc: "\<And>x y :: uint32. x \<le> y \<Longrightarrow> y \<le> h \<Longrightarrow> x \<le> h"
    by simp
  have ft: "filter (\<lambda>k. k \<le> h) keys = take c keys"
    unfolding c_def by (rule sorted_filter_take(1) [OF assms(1)]) (rule dc)
  have cl: "c \<le> length keys"
    by (simp add: c_def)
  show ?thesis
  proof (cases "c = 0")
    case True
    then have "filter (\<lambda>k. k \<le> h) keys = []"
      by (simp add: c_def)
    then have "\<not> (\<exists>p \<in> set keys. p \<le> h)"
      by (simp only: filter_empty_conv) blast
    with True show ?thesis
      by (simp add: predecessorPoint_def)
  next
    case False
    with cl have ne: "take c keys \<noteq> []" and len: "length (take c keys) = c"
      by auto
    from ne ft have "filter (\<lambda>k. k \<le> h) keys \<noteq> []"
      by simp
    then have ex: "\<exists>p \<in> set keys. p \<le> h"
      by (simp only: filter_empty_conv) blast
    have st: "sorted (take c keys)"
      using assms(1) by (rule sorted_wrt_take)
    have "Max (set (take c keys)) = last (take c keys)"
      using st ne by (rule sorted_Max_last)
    also have "\<dots> = take c keys ! (c - 1)"
      using ne len by (simp add: last_conv_nth)
    also have "\<dots> = keys ! (c - 1)"
      using False by simp
    finally have "Max (set (filter (\<lambda>k. k \<le> h) keys)) = keys ! (c - 1)"
      by (simp only: ft)
    with ex False show ?thesis
      by (simp add: predecessorPoint_def)
  qed
qed

lemma lowerBoundPoint_nth:
  fixes keys :: "uint32 list" and h :: uint32
  assumes "sorted keys" and "keys \<noteq> []"
  defines "c \<equiv> length (filter (\<lambda>k. k < h) keys)"
  shows "lowerBoundPoint keys h = (if c = length keys then keys ! 0 else keys ! c)"
proof -
  have dc: "\<And>x y :: uint32. x \<le> y \<Longrightarrow> y < h \<Longrightarrow> x < h"
    by simp
  have "filter (\<lambda>k. \<not> k < h) keys = drop c keys"
    unfolding c_def by (rule sorted_filter_take(2) [OF assms(1)]) (rule dc)
  then have fd: "filter (\<lambda>k. h \<le> k) keys = drop c keys"
    by (simp only: not_less)
  have cl: "c \<le> length keys"
    by (simp add: c_def)
  show ?thesis
  proof (cases "c = length keys")
    case True
    with fd have "filter (\<lambda>k. h \<le> k) keys = []"
      by simp
    then have "\<not> (\<exists>p \<in> set keys. h \<le> p)"
      by (simp only: filter_empty_conv) blast
    with True show ?thesis
      by (simp add: lowerBoundPoint_def)
  next
    case False
    with cl have lt: "c < length keys" by simp
    then have ne: "drop c keys \<noteq> []" by simp
    with fd have "filter (\<lambda>k. h \<le> k) keys \<noteq> []"
      by simp
    then have ex: "\<exists>p \<in> set keys. h \<le> p"
      by (simp only: filter_empty_conv) blast
    have sd: "sorted (drop c keys)"
      using assms(1) by (rule sorted_wrt_drop)
    have "Min (set (drop c keys)) = hd (drop c keys)"
      using sd ne by (rule sorted_Min_hd)
    also have "\<dots> = keys ! c"
      using lt by (simp add: hd_drop_conv_nth)
    finally have "Min (set (filter (\<lambda>k. h \<le> k) keys)) = keys ! c"
      by (simp only: fd)
    with ex False show ?thesis
      by (simp add: lowerBoundPoint_def)
  qed
qed

lemma binarySearch_sorted:
  assumes "sorted (rubyHashRing.sortedKeys r)"
  shows "binarySearch r v =
    Inr (int (length (filter (\<lambda>k. k \<le> v) (rubyHashRing.sortedKeys r))) - 1)"
  unfolding binarySearch_def
  by (rule binarySearchLoop_sorted [OF assms]) simp_all

lemma getNode_sorted:
  assumes "sorted (rubyHashRing.sortedKeys r)" and "rubyHashRing.sortedKeys r \<noteq> []"
  shows "getNode r key =
    Inr (rubyHashRing.ring r
      (predecessorPoint (rubyHashRing.sortedKeys r) (ChecksumIEEE (bytesOf key))))"
proof -
  let ?keys = "rubyHashRing.sortedKeys r"
  let ?h = "ChecksumIEEE (bytesOf key)"
  let ?c = "length (filter (\<lambda>k. k \<le> ?h) ?keys)"
  have cl: "?c \<le> length ?keys" by simp
  have len: "0 < length ?keys" using assms(2) by simp
  show ?thesis
  proof (cases "?c = 0")
    case True
    from len have "0 \<le> int (length ?keys) - 1"
      and "nat (int (length ?keys) - 1) = length ?keys - 1"
      by linarith+
    then have "sliceIndex ?keys (int (length ?keys) - 1) = Inr (last ?keys)"
      using assms(2) by (simp add: sliceIndex_def last_conv_nth)
    with True assms(2) show ?thesis
      by (simp add: getNode_def binarySearch_sorted [OF assms(1)]
          predecessorPoint_nth [OF assms])
  next
    case False
    from False cl have "0 \<le> int ?c - 1" "int ?c - 1 < int (length ?keys)"
      and "nat (int ?c - 1) = ?c - 1"
      by linarith+
    then have "sliceIndex ?keys (int ?c - 1) = Inr (?keys ! (?c - 1))"
      by (simp add: sliceIndex_def)
    with False assms(2) show ?thesis
      by (simp add: getNode_def binarySearch_sorted [OF assms(1)]
          predecessorPoint_nth [OF assms])
  qed
qed

lemma SearchLoop_sorted:
  "sorted keys \<Longrightarrow>
   (\<And>h. 0 \<le> h \<Longrightarrow> h < int (length keys) \<Longrightarrow> f h = Inr (v \<le> keys ! nat h)) \<Longrightarrow>
   0 \<le> i \<Longrightarrow> i \<le> int (length (filter (\<lambda>k. k < v) keys)) \<Longrightarrow>
   int (length (filter (\<lambda>k. k < v) keys)) \<le> j \<Longrightarrow> j \<le> int (length keys) \<Longrightarrow>
   SearchLoop f i j = Inr (int (length (filter (\<lambda>k. k < v) keys)))"
proof (induction f i j rule: SearchLoop.induct)
  case (1 f i j)
  let ?c = "int (length (filter (\<lambda>k. k < v) keys))"
  note srt = "1.prems"(1) and fh = "1.prems"(2)
  show ?case
  proof (cases "i < j")
    case False
    with "1.prems" show ?thesis
      by (subst SearchLoop.simps) simp
  next
    case True
    define h where "h = (i + j) div 2"
    from True "1.prems" have m: "0 \<le> h" "i \<le> h" "h < j" "h < int (length keys)"
      by (auto simp: h_def)
    then have fv: "f h = Inr (v \<le> keys ! nat h)"
      by (simp add: fh)
    have cnt: "keys ! nat h < v \<longleftrightarrow> nat h < length (filter (\<lambda>k. k < v) keys)"
      using m by (intro sorted_prefix_count [OF srt]) auto
    show ?thesis
    proof (cases "v \<le> keys ! nat h")
      case ge: True
      with cnt m have "?c \<le> h" by auto
      from "1.IH"(2) [OF True h_def fv _ srt fh "1.prems"(3,4) this] ge m
      have "SearchLoop f i h = Inr ?c"
        by simp
      with True ge fv show ?thesis
        by (subst SearchLoop.simps) (simp add: h_def [symmetric])
    next
      case lt: False
      with cnt m have "h + 1 \<le> ?c" by auto
      from "1.IH"(1) [OF True h_def fv lt srt fh _ this "1.prems"(5,6)] m
      have "SearchLoop f (h + 1) j = Inr ?c"
        by simp
      with True lt fv show ?thesis
        by (subst SearchLoop.simps) (simp add: h_def [symmetric])
    qed
  qed
qed

lemma Get_sorted:
  assumes "sorted (rubyStyleHash.sortedKeys h)" and "rubyStyleHash.sortedKeys h \<noteq> []"
  shows "Get h key =
    Inr (case rubyStyleHash.ring h
          (lowerBoundPoint (rubyStyleHash.sortedKeys h) (ChecksumIEEE (bytesOf key))) of
        None \<Rightarrow> [] | Some s \<Rightarrow> s)"
proof -
  let ?keys = "rubyStyleHash.sortedKeys h"
  let ?v = "ChecksumIEEE (bytesOf key)"
  let ?c = "length (filter (\<lambda>k. k < ?v) ?keys)"
  let ?f = "\<lambda>i. case sliceIndex ?keys i of Inl e \<Rightarrow> Inl e | Inr k \<Rightarrow> Inr (?v \<le> k)"
  have cl: "?c \<le> length ?keys" by simp
  have len: "0 < length ?keys" using assms(2) by simp
  have s: "Search (int (length ?keys)) ?f = Inr (int ?c)"
    unfolding Search_def
    by (rule SearchLoop_sorted [OF assms(1)]) (simp_all add: sliceIndex_def)
  show ?thesis
  proof (cases "?c = length ?keys")
    case True
    have "sliceIndex ?keys 0 = Inr (?keys ! 0)"
      using len by (simp add: sliceIndex_def)
    with True assms(2) s show ?thesis
      by (simp add: Get_def lowerBoundPoint_nth [OF assms])
  next
    case False
    with cl have "?c < length ?keys"
      by linarith
    then have "sliceIndex ?keys (int ?c) = Inr (?keys ! ?c)"
      by (simp add: sliceIndex_def)
    with False assms(2) s show ?thesis
      by (simp add: Get_def lowerBoundPoint_nth [OF assms])
  qed
qed

section \<open>Rings built by the constructors\<close>

lemma newRubyHashRing_sorted:
  "newRubyHashRing cfgs reps = Inr r \<Longrightarrow> sorted (rubyHashRing.sortedKeys r)"
  by (simp add: newRubyHashRing_Inr(1))

lemma newRubyHashRing_dom:
  "newRubyHashRing cfgs reps = Inr r \<Longrightarrow>
   dom (rubyHashRing.ring r) = set (rubyHashRing.sortedKeys r)"
  by (simp add: newRubyHashRing_Inr(1,2) dom_map_of_conv_image_fst)

lemma newRubyStyleHash_sorted:
  "newRubyStyleHash shards reps = Inr h \<Longrightarrow> sorted (rubyStyleHash.sortedKeys h)"
  by (simp add: newRubyStyleHash_Inr(1))

lemma newRubyStyleHash_dom:
  "newRubyStyleHash shards reps = Inr h \<Longrightarrow>
   dom (rubyStyleHash.ring h) = set (rubyStyleHash.sortedKeys h)"
  by (simp add: newRubyStyleHash_Inr(1,2) dom_map_of_conv_image_fst)

lemma predecessorPoint_in_set:
  assumes "sorted keys" and "keys \<noteq> []"
  shows "predecessorPoint keys h \<in> set keys"
proof -
  let ?c = "length (filter (\<lambda>k. k \<le> h) keys)"
  have "?c \<le> length keys" by simp
  moreover from assms(2) have "0 < length keys" by simp
  ultimately have "?c \<noteq> 0 \<Longrightarrow> ?c - 1 < length keys" by linarith
  then show ?thesis
    using assms(2) by (simp add: predecessorPoint_nth [OF assms])
qed

lemma lowerBoundPoint_in_set:
  assumes "sorted keys" and "keys \<noteq> []"
  shows "lowerBoundPoint keys h \<in> set keys"
proof -
  let ?c = "length (filter (\<lambda>k. k < h) keys)"
  have "?c \<le> length keys" by simp
  then have "?c \<noteq> length keys \<Longrightarrow> ?c < length keys" by linarith
  then show ?thesis
    using assms(2) by (simp add: lowerBoundPoint_nth [OF assms])
qed

lemma shardInsertions_map_Name:
  "shardInsertions (map Name cfgs) reps = map (\<lambda>(p, n). (p, name n)) (insertions cfgs reps)"
  by (induction cfgs) (simp_all add: shardInsertions_def insertions_def newNode_def o_def)

lemma map_of_rev_map_name:
  "map_of (rev (map (\<lambda>(p, n). (p, f n)) ins)) p = map_option f (map_of (rev ins) p)"
  by (simp add: rev_map map_of_map)

lemma predecessorPoint_stored:
  assumes "h \<in> set keys"
  shows "predecessorPoint keys h = h"
proof -
  have "Max (set (filter (\<lambda>p. p \<le> h) keys)) = h"
    using assms by (intro Max_eqI) auto
  with assms show ?thesis
    by (auto simp: predecessorPoint_def)
qed

lemma lowerBoundPoint_stored:
  assumes "h \<in> set keys"
  shows "lowerBoundPoint keys h = h"
proof -
  have "Min (set (filter (\<lambda>p. h \<le> p) keys)) = h"
    using assms by (intro Min_eqI) auto
  with assms show ?thesis
    by (auto simp: lowerBoundPoint_def)
qed

lemma length_insertions: "length (insertions cfgs reps) = nat reps * length cfgs"
  by (induction cfgs) (simp_all add: insertions_def)

lemma length_shardInsertions: "length (shardInsertions shards reps) = nat reps * length shards"
  by (induction shards) (simp_all add: shardInsertions_def)

lemma map_of_rev_last_wins:
  "j < length ins \<Longrightarrow> fst (ins ! j) = p \<Longrightarrow>
   (\<forall>k. j < k \<and> k < length ins \<longrightarrow> fst (ins ! k) \<noteq> p) \<Longrightarrow>
   map_of (rev ins) p = Some (snd (ins ! j))"
proof (induction ins rule: rev_induct)
  case Nil
  then show ?case by simp
next
  case (snoc x xs)
  show ?case
  proof (cases "j = length xs")
    case True
    with snoc.prems(2) show ?thesis
      by (cases x) simp
  next
    case False
    with snoc.prems(1) have j: "j < length xs" by simp
    with snoc.prems(3) [rule_format, of "length xs"] have "fst ((xs @ [x]) ! length xs) \<noteq> p"
      by simp
    then have x: "fst x \<noteq> p" by simp
    have "fst (xs ! j) = p"
      using snoc.prems(2) j by (simp add: nth_append)
    moreover have "\<forall>k. j < k \<and> k < length xs \<longrightarrow> fst (xs ! k) \<noteq> p"
    proof (intro allI impI)
      fix k assume k: "j < k \<and> k < length xs"
      with snoc.prems(3) [rule_format, of k] have "fst ((xs @ [x]) ! k) \<noteq> p" by simp
      with k show "fst (xs ! k) \<noteq> p" by (simp add: nth_append)
    qed
    ultimately have "map_of (rev xs) p = Some (snd (xs ! j))"
      using snoc.IH j by blast
    with x j show ?thesis
      by (cases x) (simp add: nth_append)
  qed
qed

lemma goInt_in_range: "- (2 ^ 63) \<le> x \<Longrightarrow> x < 2 ^ 63 \<Longrightarrow> goInt x = x"
  by (simp add: goInt_def sint_sbintrunc' signed_take_bit_int_eq_self)

lemma newRubyHashRing_cases:
  "newRubyHashRing cfgs reps =
     (if makesliceOK 4 (goInt (reps * int (length cfgs)))
      then Inr ((configLoop cfgs reps
              \<lparr>rubyHashRing.replicas = reps, sortedKeys = [], ring = Map.empty, nodes = []\<rparr>)
            \<lparr>rubyHashRing.sortedKeys := sort (rubyHashRing.sortedKeys (configLoop cfgs reps
              \<lparr>rubyHashRing.replicas = reps, sortedKeys = [], ring = Map.empty, nodes = []\<rparr>))\<rparr>)
      else Inl CapOutOfRange)"
  by (simp add: newRubyHashRing_def Let_def)

lemma insertions_empty: "reps \<le> 0 \<or> cfgs = [] \<Longrightarrow> insertions cfgs reps = []"
  by (auto simp: insertions_def)

lemma newRubyHashRing_empty:
  assumes ok: "makesliceOK 4 (goInt (reps * int (length cfgs)))" and z: "reps \<le> 0 \<or> cfgs = []"
  shows "newRubyHashRing cfgs reps =
     Inr \<lparr>rubyHashRing.replicas = reps, sortedKeys = [], ring = Map.empty, nodes = map newNode cfgs\<rparr>"
proof -
  from ok obtain r where r: "newRubyHashRing cfgs reps = Inr r"
    by (simp add: newRubyHashRing_cases)
  from z have i: "insertions cfgs reps = []"
    by (rule insertions_empty)
  have "r = \<lparr>rubyHashRing.replicas = reps, sortedKeys = [], ring = Map.empty, nodes = map newNode cfgs\<rparr>"
    using newRubyHashRing_Inr [OF r] by (simp add: i)
  with r show ?thesis by simp
qed

section \<open>Bytes, digits and virtual keys\<close>

lemma byte_take_bit: "take_bit 8 (uint (b :: byte)) = uint b"
  by (simp add: take_bit_eq_mod uint_bounded [where 'a = 8, simplified])

lemma concat_byte: "uint (b :: byte) OR push_bit 8 x = uint b + 2 ^ 8 * x"
  using concat_bit_eq [of 8 "uint b" x]
  by (simp add: concat_bit_def byte_take_bit push_bit_eq_mult mult.commute)

lemma be32_int:
  "uint (b3 :: byte) OR push_bit 8 (uint (b2 :: byte)) OR push_bit 16 (uint (b1 :: byte))
     OR push_bit 24 (uint (b0 :: byte)) =
   uint b0 * 2 ^ 24 + uint b1 * 2 ^ 16 + uint b2 * 2 ^ 8 + uint b3"
proof -
  have "uint b3 OR push_bit 8 (uint b2) OR push_bit 16 (uint b1) OR push_bit 24 (uint b0) =
      uint b3 OR push_bit 8 (uint b2 OR push_bit 8 (uint b1 OR push_bit 8 (uint b0)))"
    by (simp add: push_bit_or push_bit_push_bit ac_simps)
  also have "\<dots> = uint b3 + 2 ^ 8 * (uint b2 + 2 ^ 8 * (uint b1 + 2 ^ 8 * uint b0))"
    by (simp only: concat_byte)
  finally show ?thesis
    by simp
qed

lemma BigEndianUint32_value:
  "uint (BigEndianUint32 [b0, b1, b2, b3]) =
     uint b0 * 2 ^ 24 + uint b1 * 2 ^ 16 + uint b2 * 2 ^ 8 + uint b3"
proof -
  have lt: "uint b0 * 2 ^ 24 + uint b1 * 2 ^ 16 + uint b2 * 2 ^ 8 + uint b3 < 2 ^ 32"
    using uint_bounded [of b0] uint_bounded [of b1] uint_bounded [of b2] uint_bounded [of b3]
    by simp
  have ge: "0 \<le> uint b0 * 2 ^ 24 + uint b1 * 2 ^ 16 + uint b2 * 2 ^ 8 + uint b3"
    by simp
  have "uint (BigEndianUint32 [b0, b1, b2, b3]) =
      take_bit 32 (uint b3 OR push_bit 8 (uint b2) OR push_bit 16 (uint b1) OR push_bit 24 (uint b0))"
    by (auto simp add: BigEndianUint32_def uint_or unsigned_push_bit_eq unsigned_ucast_eq
        bit_eq_iff bit_simps)
  also have "\<dots> = take_bit 32 (uint b0 * 2 ^ 24 + uint b1 * 2 ^ 16 + uint b2 * 2 ^ 8 + uint b3)"
    by (simp only: be32_int)
  also have "\<dots> = uint b0 * 2 ^ 24 + uint b1 * 2 ^ 16 + uint b2 * 2 ^ 8 + uint b3"
    using lt ge by (simp add: take_bit_int_eq_self)
  finally show ?thesis .
qed

lemma length_md5Sum: "length (md5Sum data) = 16"
  by (simp add: md5Sum_def putUint32LE_def split: prod.split)

lemma take_4_nth: "4 \<le> length xs \<Longrightarrow> take 4 xs = [xs ! 0, xs ! 1, xs ! 2, xs ! 3]"
  by (auto simp: numeral_eq_Suc Suc_le_length_iff)

lemma serverHashFor_value:
  "uint (serverHashFor key) =
     uint (md5Sum (bytesOf key) ! 0) * 2 ^ 24 + uint (md5Sum (bytesOf key) ! 1) * 2 ^ 16
       + uint (md5Sum (bytesOf key) ! 2) * 2 ^ 8 + uint (md5Sum (bytesOf key) ! 3)"
proof -
  let ?d = "md5Sum (bytesOf key)"
  have "4 \<le> length ?d" by (simp add: length_md5Sum)
  then have "take 4 ?d = [?d ! 0, ?d ! 1, ?d ! 2, ?d ! 3]"
    by (rule take_4_nth)
  then show ?thesis
    by (simp only: serverHashFor_def BigEndianUint32_value)
qed

lemma digit_nth: "d < 10 \<Longrightarrow> digitValue (''0123456789'' ! d) = d"
proof -
  assume "d < 10"
  then have "d \<in> {0, 1, 2, 3, 4, 5, 6, 7, 8, 9}"
    by auto
  then show ?thesis
    by (auto simp: digitValue_def)
qed

lemma digit_nth_mem: "d < 10 \<Longrightarrow> ''0123456789'' ! d \<in> set ''0123456789''"
  by (rule nth_mem) simp

lemma decimalValue_snoc: "decimalValue (s @ [c]) = 10 * decimalValue s + digitValue c"
  by (simp add: decimalValue_def)

lemma decimalValue_natDigits: "decimalValue (natDigits n) = n"
proof (induction n rule: natDigits.induct)
  case (1 n)
  show ?case
  proof (cases "n < 10")
    case True
    then show ?thesis
      by (subst natDigits.simps) (simp add: decimalValue_def digit_nth del: nth_Cons_numeral)
  next
    case False
    have "n mod 10 < 10" by simp
    then have "digitValue (''0123456789'' ! (n mod 10)) = n mod 10"
      by (rule digit_nth)
    with False "1.IH" show ?thesis
      by (subst natDigits.simps) (simp add: decimalValue_snoc del: nth_Cons_numeral)
  qed
qed

lemma set_natDigits: "set (natDigits n) \<subseteq> set ''0123456789''"
proof (induction n rule: natDigits.induct)
  case (1 n)
  define S where "S = set ''0123456789''"
  show ?case
  proof (cases "n < 10")
    case True
    then have "''0123456789'' ! n \<in> S"
      unfolding S_def by (rule digit_nth_mem)
    moreover have "natDigits n = [''0123456789'' ! n]"
      using True by (subst natDigits.simps) simp
    ultimately show ?thesis
      unfolding S_def [symmetric] by simp
  next
    case False
    have "''0123456789'' ! (n mod 10) \<in> S"
      unfolding S_def by (rule digit_nth_mem) simp
    moreover have "natDigits n = natDigits (n div 10) @ [''0123456789'' ! (n mod 10)]"
      using False by (subst natDigits.simps) simp
    moreover have "set (natDigits (n div 10)) \<subseteq> S"
      unfolding S_def using False by (rule "1.IH")
    ultimately show ?thesis
      unfolding S_def [symmetric] by simp
  qed
qed

lemma formatInt_nonneg:
  "0 \<le> i \<Longrightarrow> set (formatInt i) \<subseteq> set ''0123456789'' \<and> decimalValue (formatInt i) = nat i"
  using set_natDigits [of "nat i"] by (simp add: formatInt_def decimalValue_natDigits)

lemma map_fst_insertions:
  "map fst (insertions cfgs reps) =
     concat (map (\<lambda>c. map (\<lambda>j. serverHashFor (Name c @ '':'' @ formatInt j)) [0..reps - 1]) cfgs)"
  by (simp add: insertions_def map_concat o_def virtualKey_def)

lemma map_fst_shardInsertions:
  "map fst (shardInsertions shards reps) =
     concat (map (\<lambda>s. map (\<lambda>j. serverHashFor (s @ '':'' @ formatInt j)) [0..reps - 1]) shards)"
  by (simp add: shardInsertions_def map_concat o_def virtualKey_def)

section \<open>The two lookups on the same input\<close>

lemma lookups_agree_iff:
  assumes "newRubyHashRing cfgs reps = Inr r"
    and "newRubyStyleHash (map Name cfgs) reps = Inr h"
    and "rubyHashRing.sortedKeys r \<noteq> []"
  shows "Get h key = (case getNode r key of Inl e \<Rightarrow> Inl e | Inr nd \<Rightarrow> Inr (shardName nd)) \<longleftrightarrow>
         map_option name (rubyHashRing.ring r
           (lowerBoundPoint (rubyHashRing.sortedKeys r) (ChecksumIEEE (bytesOf key)))) =
         map_option name (rubyHashRing.ring r
           (predecessorPoint (rubyHashRing.sortedKeys r) (ChecksumIEEE (bytesOf key))))"
proof -
  let ?v = "ChecksumIEEE (bytesOf key)"
  let ?kr = "rubyHashRing.sortedKeys r" and ?kh = "rubyStyleHash.sortedKeys h"
  have keys: "?kh = ?kr"
    by (simp add: newRubyStyleHash_Inr(1) [OF assms(2)] newRubyHashRing_Inr(1) [OF assms(1)]
        shardInsertions_map_Name o_def split_def)
  have own: "rubyStyleHash.ring h p = map_option name (rubyHashRing.ring r p)" for p
    by (simp only: newRubyStyleHash_Inr(2) [OF assms(2)] newRubyHashRing_Inr(2) [OF assms(1)]
        shardInsertions_map_Name map_of_rev_map_name)
  have sr: "sorted ?kr"
    using assms(1) by (rule newRubyHashRing_sorted)
  have dm: "dom (rubyHashRing.ring r) = set ?kr"
    using assms(1) by (rule newRubyHashRing_dom)
  have "predecessorPoint ?kr ?v \<in> dom (rubyHashRing.ring r)"
    unfolding dm using sr assms(3) by (rule predecessorPoint_in_set)
  then obtain n where n: "rubyHashRing.ring r (predecessorPoint ?kr ?v) = Some n"
    by blast
  have "lowerBoundPoint ?kr ?v \<in> dom (rubyHashRing.ring r)"
    unfolding dm using sr assms(3) by (rule lowerBoundPoint_in_set)
  then obtain m where m: "rubyHashRing.ring r (lowerBoundPoint ?kr ?v) = Some m"
    by blast
  have g: "getNode r key = Inr (Some n)"
    by (simp add: getNode_sorted [OF sr assms(3)] n)
  have "Get h key = Inr (name m)"
    using sr assms(3) by (simp add: Get_sorted keys own m)
  with g n m show ?thesis
    by (simp add: shardName_def)
qed

section \<open>Evaluating the hash functions\<close>

lemma tableStep_numeral:
  "tableStep (numeral k) crc =
     tableStep (pred_numeral k) (if crc AND 1 = 1 then (drop_bit 1 crc) XOR IEEE else drop_bit 1 crc)"
  by (simp add: numeral_eq_Suc)

lemma minus1_uint32: "(- 1 :: uint32) = 0xFFFFFFFF"
  by simp

lemmas crc32_eval = ChecksumIEEE_def simpleUpdate_def bytesOf_def IEEETable_def IEEE_def
  tableStep_numeral minus1_uint32

text \<open>
  One step of \<open>md5Rounds\<close> with the new state word brought back below \<open>2 ^ 32\<close>, so
  that the numerals stay small while the simplifier runs the 64 steps.
\<close>

lemma md5Rounds_eval:
  "md5Rounds x i (k # ks) (s # ss) (a, b, c, d) =
     md5Rounds x (i + 1) ks ss
       (d, word_of_nat (unat (b + RotateLeft32 (md5F i b c d + a + x ! md5G i + k) s)), b, c)"
  "md5Rounds x i [] ss st = st"
  by simp_all

lemma blockWords_numeral:
  "blockWords (numeral k) p = le32 p # blockWords (pred_numeral k) (drop 4 p)"
  by (simp add: numeral_eq_Suc)

lemma replicate_numeral_eval: "replicate (numeral k) x = x # replicate (pred_numeral k) x"
  by (simp add: numeral_eq_Suc)

lemmas md5_eval = serverHashFor_def BigEndianUint32_def md5Sum_def md5Init_def md5Pad_def
  putUint64LE_def putUint32LE_def blockGeneric.simps md5Rounds_eval md5F_def md5G_def md5S_def
  md5K_def RotateLeft32_def bytesOf_def blockWords_numeral replicate_numeral_eval

text \<open>Running the constructors and the lookups on the example rings.\<close>

lemmas virtualKey_eval = virtualKey_def formatInt_def natDigits.simps

lemma serverHashFor_a0: "serverHashFor ''a:0'' = 0x1311656a"
  by (simp add: md5_eval del: md5Rounds.simps)

lemma serverHashFor_b0: "serverHashFor ''b:0'' = 0x3ece1176"
  by (simp add: md5_eval del: md5Rounds.simps)

lemma newRubyHashRing_AB: "newRubyHashRing configsAB 1 = Inr ringAB"
  by (simp add: newRubyHashRing_def configsAB_def ringAB_def nodeA_def nodeB_def goInt_def
      makesliceOK_def maxAlloc_def Let_def replicaLoop.simps newNode_def virtualKey_eval
      serverHashFor_a0 serverHashFor_b0)

lemma newRubyStyleHash_AB: "newRubyStyleHash [''a'', ''b''] 1 = Inr hashAB"
  by (simp add: newRubyStyleHash_def hashAB_def goInt_def
      makesliceOK_def maxAlloc_def Let_def shardLoop.simps virtualKey_eval
      serverHashFor_a0 serverHashFor_b0)

lemma crc32_a: "ChecksumIEEE (bytesOf ''a'') = 0xe8b7be43"
  by (simp add: crc32_eval)

lemmas lookup_eval = getNode_def binarySearch_def binarySearchLoop.simps sliceIndex_def
  Get_def Search_def SearchLoop.simps Let_def

lemma getNode_AB_a: "getNode ringAB ''a'' = Inr (Some nodeB)"
  by (simp add: lookup_eval ringAB_def crc32_a)

lemma crc32_user12: "ChecksumIEEE (bytesOf ''user:12'') = 0x1918f9c3"
  by (simp add: crc32_eval)

lemma crc32_user1: "ChecksumIEEE (bytesOf ''user:1'') = 0x7ba5c282"
  by (simp add: crc32_eval)

lemma crc32_user0: "ChecksumIEEE (bytesOf ''user:0'') = 0x0ca2f214"
  by (simp add: crc32_eval)

lemma crc32_stored: "ChecksumIEEE (bytesOf ''kaafqL_Wh'') = 0x1311656a"
  by (simp add: crc32_eval)

lemma nodeA_neq_nodeB: "nodeA \<noteq> nodeB"
  by (simp add: nodeA_def nodeB_def)

lemma sortedKeys_ringAB: "rubyHashRing.sortedKeys ringAB = [0x1311656a, 0x3ece1176]"
  by (simp add: ringAB_def)

lemma sortedKeys_hashAB: "rubyStyleHash.sortedKeys hashAB = [0x1311656a, 0x3ece1176]"
  by (simp add: hashAB_def)

lemma ring_ringAB:
  "rubyHashRing.ring ringAB 0x1311656a = Some nodeA"
  "rubyHashRing.ring ringAB 0x3ece1176 = Some nodeB"
  by (simp_all add: ringAB_def)

lemma ring_hashAB:
  "rubyStyleHash.ring hashAB 0x1311656a = Some ''a''"
  "rubyStyleHash.ring hashAB 0x3ece1176 = Some ''b''"
  by (simp_all add: hashAB_def)

lemma serverHashFor_s5404: "serverHashFor ''s5404:0'' = 0xf9229426"
  by (simp add: md5_eval del: md5Rounds.simps)

lemma serverHashFor_s7442: "serverHashFor ''s7442:0'' = 0xf9229426"
  by (simp add: md5_eval del: md5Rounds.simps)

lemma newRubyHashRing_Coll: "newRubyHashRing configsColl 1 = Inr ringColl"
  by (simp add: newRubyHashRing_def configsColl_def ringColl_def nodeS1_def nodeS2_def goInt_def
      makesliceOK_def maxAlloc_def Let_def replicaLoop.simps newNode_def virtualKey_eval
      serverHashFor_s5404 serverHashFor_s7442)

lemma newRubyStyleHash_Coll: "newRubyStyleHash [''s5404'', ''s7442''] 1 = Inr hashColl"
  by (simp add: newRubyStyleHash_def hashColl_def goInt_def
      makesliceOK_def maxAlloc_def Let_def shardLoop.simps virtualKey_eval
      serverHashFor_s5404 serverHashFor_s7442)

lemma insertions_Coll:
  "insertions configsColl 1 = [(0xf9229426, nodeS1), (0xf9229426, nodeS2)]"
  by (simp add: insertions_def configsColl_def nodeS1_def nodeS2_def newNode_def virtualKey_eval
      serverHashFor_s5404 serverHashFor_s7442 upto.simps)

lemma md5Sum_abc:
  "md5Sum (bytesOf ''abc'') =
     [0x90, 0x01, 0x50, 0x98, 0x3c, 0xd2, 0x4f, 0xb0, 0xd6, 0x96, 0x3f, 0x7d, 0x28, 0xe1, 0x7f, 0x72]"
  by (simp add: md5_eval del: md5Rounds.simps)

lemma crc32_check: "ChecksumIEEE (bytesOf ''123456789'') = 0xcbf43926"
  by (simp add: crc32_eval)

lemma crc32_k1: "ChecksumIEEE (bytesOf ''k97872'') = 0x60940149"
  by (simp add: crc32_eval)

lemma crc32_k2: "ChecksumIEEE (bytesOf ''k15860000'') = 0x60940149"
  by (simp add: crc32_eval)

lemma crc32_tagged0: "ChecksumIEEE (bytesOf ''user:{tag0}:0'') = 0x3d8e1ca9"
  by (simp add: crc32_eval)

lemma crc32_tagged1: "ChecksumIEEE (bytesOf ''user:{tag0}:1'') = 0x4a892c3f"
  by (simp add: crc32_eval)

lemma crc32_tag0: "ChecksumIEEE (bytesOf ''tag0'') = 0x8069840c"
  by (simp add: crc32_eval)

lemma normalize_tagged0: "normalizeForGoRedis ''user:{tag0}:0'' = ''tag0''"
  by (simp add: normalizeForGoRedis_def Let_def)

section \<open>The claims\<close>

text \<open>
  C1, as stated, fails for \<open>getNode\<close>. On the ring of the nodes \<open>a\<close> and \<open>b\<close> with one
  replica each, the key \<open>user:12\<close> hashes between the two points: the smallest point
  \<open>\<ge>\<close> the hash belongs to \<open>b\<close>, and \<open>getNode\<close> returns \<open>a\<close>.
\<close>

theorem getNode_lower_bound_counterexample:
  "newRubyHashRing configsAB 1 = Inr ringAB \<and>
   lowerBoundPoint (rubyHashRing.sortedKeys ringAB) (ChecksumIEEE (bytesOf ''user:12'')) = 0x3ece1176 \<and>
   rubyHashRing.ring ringAB 0x3ece1176 = Some nodeB \<and>
   getNode ringAB ''user:12'' = Inr (Some nodeA) \<and> nodeA \<noteq> nodeB"
  by (simp add: newRubyHashRing_AB crc32_user12 sortedKeys_ringAB ring_ringAB nodeA_neq_nodeB
      lowerBoundPoint_def lookup_eval)

text \<open>
  C1, amended. On rings that hold a point, \<open>Get\<close> selects the smallest stored point
  \<open>\<ge>\<close> the key's CRC-32, else the point at index 0, as the claim says; \<open>getNode\<close> selects
  the largest stored point \<open>\<le>\<close> the key's CRC-32, else the last point. Each returns the
  owner of the point it selects, and that point has an owner.
\<close>

theorem lookup_selection:
  assumes "newRubyHashRing cfgs reps = Inr r" and "rubyHashRing.sortedKeys r \<noteq> []"
    and "newRubyStyleHash shards reps' = Inr h" and "rubyStyleHash.sortedKeys h \<noteq> []"
  shows "(\<exists>n. rubyHashRing.ring r
               (predecessorPoint (rubyHashRing.sortedKeys r) (ChecksumIEEE (bytesOf key))) = Some n
             \<and> getNode r key = Inr (Some n)) \<and>
         (\<exists>s. rubyStyleHash.ring h
               (lowerBoundPoint (rubyStyleHash.sortedKeys h) (ChecksumIEEE (bytesOf key))) = Some s
             \<and> Get h key = Inr s)"
proof -
  let ?v = "ChecksumIEEE (bytesOf key)"
  have sr: "sorted (rubyHashRing.sortedKeys r)"
    using assms(1) by (rule newRubyHashRing_sorted)
  have sh: "sorted (rubyStyleHash.sortedKeys h)"
    using assms(3) by (rule newRubyStyleHash_sorted)
  have "predecessorPoint (rubyHashRing.sortedKeys r) ?v \<in> dom (rubyHashRing.ring r)"
    unfolding newRubyHashRing_dom [OF assms(1)] using sr assms(2) by (rule predecessorPoint_in_set)
  then obtain n where n: "rubyHashRing.ring r (predecessorPoint (rubyHashRing.sortedKeys r) ?v) = Some n"
    by blast
  have "lowerBoundPoint (rubyStyleHash.sortedKeys h) ?v \<in> dom (rubyStyleHash.ring h)"
    unfolding newRubyStyleHash_dom [OF assms(3)] using sh assms(4) by (rule lowerBoundPoint_in_set)
  then obtain s where s: "rubyStyleHash.ring h (lowerBoundPoint (rubyStyleHash.sortedKeys h) ?v) = Some s"
    by blast
  from n s show ?thesis
    by (simp add: getNode_sorted [OF sr assms(2)] Get_sorted [OF sh assms(4)])
qed

text \<open>The theorem of C1 at the two rings of \<open>a\<close> and \<open>b\<close> and the key \<open>user:12\<close>.\<close>

theorem lookup_selection_witness:
  "newRubyHashRing configsAB 1 = Inr ringAB \<and> rubyHashRing.sortedKeys ringAB \<noteq> [] \<and>
   newRubyStyleHash [''a'', ''b''] 1 = Inr hashAB \<and> rubyStyleHash.sortedKeys hashAB \<noteq> [] \<and>
   predecessorPoint (rubyHashRing.sortedKeys ringAB) (ChecksumIEEE (bytesOf ''user:12'')) = 0x1311656a \<and>
   getNode ringAB ''user:12'' = Inr (Some nodeA) \<and>
   lowerBoundPoint (rubyStyleHash.sortedKeys hashAB) (ChecksumIEEE (bytesOf ''user:12'')) = 0x3ece1176 \<and>
   Get hashAB ''user:12'' = Inr ''b''"
proof -
  have ne: "rubyHashRing.sortedKeys ringAB \<noteq> []" "rubyStyleHash.sortedKeys hashAB \<noteq> []"
    by (simp_all add: sortedKeys_ringAB sortedKeys_hashAB)
  have p: "predecessorPoint (rubyHashRing.sortedKeys ringAB) (ChecksumIEEE (bytesOf ''user:12'')) = 0x1311656a"
    by (simp add: predecessorPoint_def sortedKeys_ringAB crc32_user12)
  have l: "lowerBoundPoint (rubyStyleHash.sortedKeys hashAB) (ChecksumIEEE (bytesOf ''user:12'')) = 0x3ece1176"
    by (simp add: lowerBoundPoint_def sortedKeys_hashAB crc32_user12)
  show ?thesis
    using lookup_selection [OF newRubyHashRing_AB ne(1) newRubyStyleHash_AB ne(2), of "''user:12''"]
      newRubyHashRing_AB newRubyStyleHash_AB ne
    by (simp add: p l ring_ringAB ring_hashAB)
qed

text \<open>
  C2, as stated, fails for \<open>getNode\<close>. The key \<open>user:1\<close> hashes above both points of the
  ring of \<open>a\<close> and \<open>b\<close>; the smallest point belongs to \<open>a\<close>, and \<open>getNode\<close> returns \<open>b\<close>.
\<close>

theorem getNode_wrap_counterexample:
  "newRubyHashRing configsAB 1 = Inr ringAB \<and>
   rubyHashRing.sortedKeys ringAB = [0x1311656a, 0x3ece1176] \<and>
   ChecksumIEEE (bytesOf ''user:1'') = 0x7ba5c282 \<and> (0x3ece1176 :: uint32) < 0x7ba5c282 \<and>
   rubyHashRing.ring ringAB 0x1311656a = Some nodeA \<and>
   getNode ringAB ''user:1'' = Inr (Some nodeB) \<and> nodeA \<noteq> nodeB"
  by (simp add: newRubyHashRing_AB crc32_user1 sortedKeys_ringAB ring_ringAB nodeA_neq_nodeB
      lookup_eval)

text \<open>
  C2, amended. For a key whose CRC-32 is greater than every point of a ring that holds a
  point, \<open>Get\<close> wraps around and returns the owner of the first, smallest point, and
  \<open>getNode\<close> returns the owner of the last, largest point; neither returns the empty
  result.
\<close>

theorem lookup_past_last_point:
  assumes "newRubyHashRing cfgs reps = Inr r" and "rubyHashRing.sortedKeys r \<noteq> []"
    and "\<forall>p \<in> set (rubyHashRing.sortedKeys r). p < ChecksumIEEE (bytesOf key)"
    and "newRubyStyleHash shards reps' = Inr h" and "rubyStyleHash.sortedKeys h \<noteq> []"
    and "\<forall>p \<in> set (rubyStyleHash.sortedKeys h). p < ChecksumIEEE (bytesOf key)"
  shows "(\<exists>n. rubyHashRing.ring r (last (rubyHashRing.sortedKeys r)) = Some n
             \<and> getNode r key = Inr (Some n)) \<and>
         last (rubyHashRing.sortedKeys r) = Max (set (rubyHashRing.sortedKeys r)) \<and>
         (\<exists>s. rubyStyleHash.ring h (rubyStyleHash.sortedKeys h ! 0) = Some s
             \<and> Get h key = Inr s) \<and>
         rubyStyleHash.sortedKeys h ! 0 = Min (set (rubyStyleHash.sortedKeys h))"
proof -
  let ?v = "ChecksumIEEE (bytesOf key)"
  let ?kr = "rubyHashRing.sortedKeys r" and ?kh = "rubyStyleHash.sortedKeys h"
  have sr: "sorted ?kr"
    using assms(1) by (rule newRubyHashRing_sorted)
  have sh: "sorted ?kh"
    using assms(4) by (rule newRubyStyleHash_sorted)
  have mx: "Max (set ?kr) = last ?kr"
    using sr assms(2) by (rule sorted_Max_last)
  have mn: "Min (set ?kh) = ?kh ! 0"
    using sorted_Min_hd [OF sh assms(5)] assms(5) by (simp add: hd_conv_nth)
  have "filter (\<lambda>p. p \<le> ?v) ?kr = ?kr"
    using assms(3) by (simp only: filter_id_conv) (simp add: less_imp_le)
  moreover have "\<exists>p \<in> set ?kr. p \<le> ?v"
    using assms(2,3) by (cases ?kr) (auto simp: less_imp_le)
  ultimately have pp: "predecessorPoint ?kr ?v = last ?kr"
    by (simp add: predecessorPoint_def mx)
  have "\<not> (\<exists>p \<in> set ?kh. ?v \<le> p)"
    using assms(6) by (auto simp: not_le)
  then have lp: "lowerBoundPoint ?kh ?v = ?kh ! 0"
    by (simp add: lowerBoundPoint_def)
  have "last ?kr \<in> dom (rubyHashRing.ring r)"
    unfolding newRubyHashRing_dom [OF assms(1)] using assms(2) by simp
  then obtain n where n: "rubyHashRing.ring r (last ?kr) = Some n"
    by blast
  have "?kh ! 0 \<in> dom (rubyStyleHash.ring h)"
    unfolding newRubyStyleHash_dom [OF assms(4)] using assms(5) by simp
  then obtain s where s: "rubyStyleHash.ring h (?kh ! 0) = Some s"
    by blast
  from n s show ?thesis
    by (simp add: getNode_sorted [OF sr assms(2)] Get_sorted [OF sh assms(5)] pp lp mx mn)
qed

text \<open>The theorem of C2 at the two rings of \<open>a\<close> and \<open>b\<close> and the key \<open>user:1\<close>.\<close>

theorem lookup_past_last_point_witness:
  "newRubyHashRing configsAB 1 = Inr ringAB \<and>
   rubyHashRing.sortedKeys ringAB = [0x1311656a, 0x3ece1176] \<and>
   newRubyStyleHash [''a'', ''b''] 1 = Inr hashAB \<and>
   rubyStyleHash.sortedKeys hashAB = [0x1311656a, 0x3ece1176] \<and>
   (0x1311656a :: uint32) < ChecksumIEEE (bytesOf ''user:1'') \<and>
   (0x3ece1176 :: uint32) < ChecksumIEEE (bytesOf ''user:1'') \<and>
   last (rubyHashRing.sortedKeys ringAB) = 0x3ece1176 \<and>
   getNode ringAB ''user:1'' = Inr (Some nodeB) \<and>
   rubyStyleHash.sortedKeys hashAB ! 0 = 0x1311656a \<and>
   Get hashAB ''user:1'' = Inr ''a''"
proof -
  have ne: "rubyHashRing.sortedKeys ringAB \<noteq> []" "rubyStyleHash.sortedKeys hashAB \<noteq> []"
    by (simp_all add: sortedKeys_ringAB sortedKeys_hashAB)
  have b: "\<forall>p \<in> set (rubyHashRing.sortedKeys ringAB). p < ChecksumIEEE (bytesOf ''user:1'')"
    "\<forall>p \<in> set (rubyStyleHash.sortedKeys hashAB). p < ChecksumIEEE (bytesOf ''user:1'')"
    by (simp_all add: sortedKeys_ringAB sortedKeys_hashAB crc32_user1)
  show ?thesis
    using lookup_past_last_point
      [OF newRubyHashRing_AB ne(1) b(1) newRubyStyleHash_AB ne(2) b(2)]
      newRubyHashRing_AB newRubyStyleHash_AB
    by (simp add: sortedKeys_ringAB sortedKeys_hashAB ring_ringAB ring_hashAB crc32_user1)
qed

text \<open>
  C3. A lookup on a ring that holds no point returns the explicit empty result (\<open>nil\<close>
  from \<open>getNode\<close>, \<open>""\<close> from \<open>Get\<close>) for every key and does not panic; the ring built
  from an empty node list, with any replica count, is such a ring.
\<close>

theorem empty_ring_not_found:
  "(rubyHashRing.sortedKeys r = [] \<longrightarrow> getNode r key = Inr None) \<and>
   (rubyStyleHash.sortedKeys h = [] \<longrightarrow> Get h key = Inr []) \<and>
   (\<exists>r0. newRubyHashRing [] reps = Inr r0 \<and> rubyHashRing.sortedKeys r0 = []
       \<and> getNode r0 key = Inr None) \<and>
   (\<exists>h0. newRubyStyleHash [] reps = Inr h0 \<and> rubyStyleHash.sortedKeys h0 = []
       \<and> Get h0 key = Inr [])"
  by (simp add: getNode_def Get_def newRubyHashRing_def newRubyStyleHash_def goInt_def
      makesliceOK_def maxAlloc_def)

text \<open>The theorem of C3 at two rings without points and the key of the specification's scenario.\<close>

theorem empty_ring_not_found_witness:
  "getNode \<lparr>rubyHashRing.replicas = 160, sortedKeys = [], ring = Map.empty, nodes = []\<rparr>
     ''user:42:abcdef1234567890'' = Inr None \<and>
   Get \<lparr>rubyStyleHash.replicas = 160, sortedKeys = [], ring = Map.empty\<rparr>
     ''user:42:abcdef1234567890'' = Inr []"
  using empty_ring_not_found
    [of "\<lparr>rubyHashRing.replicas = 160, sortedKeys = [], ring = Map.empty, nodes = []\<rparr>"
        "''user:42:abcdef1234567890''"
        "\<lparr>rubyStyleHash.replicas = 160, sortedKeys = [], ring = Map.empty\<rparr>" 160]
  by simp

text \<open>
  C4. \<open>serverHashFor\<close> is the big-endian unsigned 32-bit integer of the first four bytes
  of the 16-byte MD5 digest of the key's bytes (\<open>md5Sum\<close> gives the digest of RFC 1321 for
  \<open>abc\<close>); the virtual key of node name \<open>n\<close> and replica index \<open>i\<close> is \<open>n\<close>, a colon and
  \<open>i\<close> in decimal digits; and the points of a constructed ring are the hashes of exactly
  these strings, for every node and every \<open>i\<close> from \<open>0\<close> to \<open>replicas - 1\<close>.
\<close>

theorem server_hash_and_virtual_keys:
  "length (md5Sum data) = 16 \<and>
   uint (serverHashFor key) =
     uint (md5Sum (bytesOf key) ! 0) * 2 ^ 24 + uint (md5Sum (bytesOf key) ! 1) * 2 ^ 16
       + uint (md5Sum (bytesOf key) ! 2) * 2 ^ 8 + uint (md5Sum (bytesOf key) ! 3) \<and>
   md5Sum (bytesOf ''abc'') =
     [0x90, 0x01, 0x50, 0x98, 0x3c, 0xd2, 0x4f, 0xb0, 0xd6, 0x96, 0x3f, 0x7d, 0x28, 0xe1, 0x7f, 0x72] \<and>
   virtualKey n i = n @ '':'' @ formatInt i \<and>
   (0 \<le> i \<longrightarrow> set (formatInt i) \<subseteq> set ''0123456789'' \<and> decimalValue (formatInt i) = nat i) \<and>
   (newRubyHashRing cfgs reps = Inr r \<longrightarrow>
      rubyHashRing.sortedKeys r =
        sort (concat (map (\<lambda>c. map (\<lambda>j. serverHashFor (Name c @ '':'' @ formatInt j))
                                 [0..reps - 1]) cfgs))) \<and>
   (newRubyStyleHash shards reps' = Inr h \<longrightarrow>
      rubyStyleHash.sortedKeys h =
        sort (concat (map (\<lambda>s. map (\<lambda>j. serverHashFor (s @ '':'' @ formatInt j))
                                 [0..reps' - 1]) shards)))"
proof (intro conjI impI)
  show "length (md5Sum data) = 16"
    by (rule length_md5Sum)
  show "uint (serverHashFor key) =
     uint (md5Sum (bytesOf key) ! 0) * 2 ^ 24 + uint (md5Sum (bytesOf key) ! 1) * 2 ^ 16
       + uint (md5Sum (bytesOf key) ! 2) * 2 ^ 8 + uint (md5Sum (bytesOf key) ! 3)"
    by (rule serverHashFor_value)
  show "md5Sum (bytesOf ''abc'') =
     [0x90, 0x01, 0x50, 0x98, 0x3c, 0xd2, 0x4f, 0xb0, 0xd6, 0x96, 0x3f, 0x7d, 0x28, 0xe1, 0x7f, 0x72]"
    by (rule md5Sum_abc)
  show "virtualKey n i = n @ '':'' @ formatInt i"
    by (simp add: virtualKey_def)
  show "set (formatInt i) \<subseteq> set ''0123456789''" "decimalValue (formatInt i) = nat i" if "0 \<le> i"
    using formatInt_nonneg [OF that] by simp_all
  show "rubyHashRing.sortedKeys r =
        sort (concat (map (\<lambda>c. map (\<lambda>j. serverHashFor (Name c @ '':'' @ formatInt j))
                                 [0..reps - 1]) cfgs))"
    if "newRubyHashRing cfgs reps = Inr r"
    by (simp only: newRubyHashRing_Inr(1) [OF that] map_fst_insertions)
  show "rubyStyleHash.sortedKeys h =
        sort (concat (map (\<lambda>s. map (\<lambda>j. serverHashFor (s @ '':'' @ formatInt j))
                                 [0..reps' - 1]) shards))"
    if "newRubyStyleHash shards reps' = Inr h"
    by (simp only: newRubyStyleHash_Inr(1) [OF that] map_fst_shardInsertions)
qed

text \<open>The theorem of C4 at replica index 159 and at the rings of \<open>a\<close> and \<open>b\<close>.\<close>

theorem server_hash_and_virtual_keys_witness:
  "(0 :: int) \<le> 159 \<and> formatInt 159 = ''159'' \<and> decimalValue ''159'' = 159 \<and>
   virtualKey ''cache-a'' 159 = ''cache-a:159'' \<and>
   newRubyHashRing configsAB 1 = Inr ringAB \<and>
   rubyHashRing.sortedKeys ringAB = sort [serverHashFor ''a:0'', serverHashFor ''b:0''] \<and>
   newRubyStyleHash [''a'', ''b''] 1 = Inr hashAB \<and>
   rubyStyleHash.sortedKeys hashAB = sort [serverHashFor ''a:0'', serverHashFor ''b:0'']"
proof -
  have f: "formatInt 159 = ''159''" "formatInt 0 = ''0''"
    by (simp_all add: formatInt_def natDigits.simps)
  have n: "map Name configsAB = [''a'', ''b'']"
    by (simp add: configsAB_def)
  show ?thesis
    using server_hash_and_virtual_keys
      [of _ _ "''cache-a''" 159 configsAB 1 ringAB "[''a'', ''b'']" 1 hashAB]
      newRubyHashRing_AB newRubyStyleHash_AB
    by (simp add: f configsAB_def)
qed

text \<open>
  C5. The value \<open>getNode\<close> searches the ring for is \<open>ChecksumIEEE\<close> of all the bytes of
  the key as they stand: on every ring with an ascending, non-empty point list (so on
  every ring \<open>newRubyHashRing\<close> builds from at least one node and one replica) the node
  returned is the owner of the point that the predecessor rule selects for that CRC-32,
  and \<open>Get\<close> returns the owner of the point that the lower-bound rule selects for it; so
  two keys with the same CRC-32 get the same answer. \<open>ChecksumIEEE\<close> is the CRC-32
  with check value \<open>0xcbf43926\<close>. Braces are hashed as they stand: the CRC-32 of
  \<open>user:{tag0}:0\<close> is not that of its tag \<open>tag0\<close>, on the ring of \<open>a\<close> and \<open>b\<close> two
  keys with the same \<open>{tag0}\<close> go to different nodes, and \<open>user:{tag0}:0\<close> does not go
  where \<open>tag0\<close> goes.
\<close>

theorem key_hash_is_crc32_of_raw_key:
  "(sorted (rubyHashRing.sortedKeys r) \<and> rubyHashRing.sortedKeys r \<noteq> [] \<longrightarrow>
      getNode r key =
        Inr (rubyHashRing.ring r
          (predecessorPoint (rubyHashRing.sortedKeys r) (ChecksumIEEE (bytesOf key))))) \<and>
   (sorted (rubyStyleHash.sortedKeys h) \<and> rubyStyleHash.sortedKeys h \<noteq> [] \<longrightarrow>
      Get h key =
        Inr (case rubyStyleHash.ring h
               (lowerBoundPoint (rubyStyleHash.sortedKeys h) (ChecksumIEEE (bytesOf key))) of
             None \<Rightarrow> [] | Some s \<Rightarrow> s)) \<and>
   (newRubyHashRing cfgs reps = Inr r' \<and> 0 < reps \<and> cfgs \<noteq> [] \<longrightarrow>
      getNode r' key =
        Inr (rubyHashRing.ring r'
          (predecessorPoint (rubyHashRing.sortedKeys r') (ChecksumIEEE (bytesOf key))))) \<and>
   (ChecksumIEEE (bytesOf k1) = ChecksumIEEE (bytesOf k2) \<longrightarrow>
      getNode r k1 = getNode r k2 \<and> Get h k1 = Get h k2) \<and>
   bytesOf key = map of_char key \<and>
   ChecksumIEEE (bytesOf ''123456789'') = 0xcbf43926 \<and>
   ChecksumIEEE (bytesOf ''user:{tag0}:0'') = 0x3d8e1ca9 \<and>
   ChecksumIEEE (bytesOf ''tag0'') = 0x8069840c \<and>
   newRubyHashRing configsAB 1 = Inr ringAB \<and>
   getNode ringAB ''user:{tag0}:0'' = Inr (Some nodeA) \<and>
   getNode ringAB ''user:{tag0}:1'' = Inr (Some nodeB) \<and>
   normalizeForGoRedis ''user:{tag0}:0'' = ''tag0'' \<and>
   getNode ringAB ''tag0'' = Inr (Some nodeB) \<and> nodeA \<noteq> nodeB"
proof (intro conjI impI)
  assume "sorted (rubyHashRing.sortedKeys r) \<and> rubyHashRing.sortedKeys r \<noteq> []"
  then show "getNode r key =
        Inr (rubyHashRing.ring r
          (predecessorPoint (rubyHashRing.sortedKeys r) (ChecksumIEEE (bytesOf key))))"
    by (simp add: getNode_sorted)
next
  assume "sorted (rubyStyleHash.sortedKeys h) \<and> rubyStyleHash.sortedKeys h \<noteq> []"
  then show "Get h key =
        Inr (case rubyStyleHash.ring h
               (lowerBoundPoint (rubyStyleHash.sortedKeys h) (ChecksumIEEE (bytesOf key))) of
             None \<Rightarrow> [] | Some s \<Rightarrow> s)"
    by (simp add: Get_sorted)
next
  assume a: "newRubyHashRing cfgs reps = Inr r' \<and> 0 < reps \<and> cfgs \<noteq> []"
  then have c: "newRubyHashRing cfgs reps = Inr r'"
    by simp
  have s: "sorted (rubyHashRing.sortedKeys r')"
    using c by (rule newRubyHashRing_sorted)
  have "length (rubyHashRing.sortedKeys r') = nat reps * length cfgs"
    by (simp add: newRubyHashRing_Inr(1) [OF c] length_insertions)
  with a have "rubyHashRing.sortedKeys r' \<noteq> []"
    by auto
  with s show "getNode r' key =
        Inr (rubyHashRing.ring r'
          (predecessorPoint (rubyHashRing.sortedKeys r') (ChecksumIEEE (bytesOf key))))"
    by (rule getNode_sorted)
next
  assume "ChecksumIEEE (bytesOf k1) = ChecksumIEEE (bytesOf k2)"
  then show "getNode r k1 = getNode r k2" "Get h k1 = Get h k2"
    by (simp_all add: getNode_def Get_def)
next
  show "bytesOf key = map of_char key"
    by (simp add: bytesOf_def)
  show "ChecksumIEEE (bytesOf ''123456789'') = 0xcbf43926"
    by (rule crc32_check)
  show "ChecksumIEEE (bytesOf ''user:{tag0}:0'') = 0x3d8e1ca9"
    by (rule crc32_tagged0)
  show "ChecksumIEEE (bytesOf ''tag0'') = 0x8069840c"
    by (rule crc32_tag0)
  show "newRubyHashRing configsAB 1 = Inr ringAB"
    by (rule newRubyHashRing_AB)
  show "getNode ringAB ''user:{tag0}:0'' = Inr (Some nodeA)"
    by (simp add: lookup_eval ringAB_def crc32_tagged0)
  show "getNode ringAB ''user:{tag0}:1'' = Inr (Some nodeB)"
    by (simp add: lookup_eval ringAB_def crc32_tagged1)
  show "normalizeForGoRedis ''user:{tag0}:0'' = ''tag0''"
    by (rule normalize_tagged0)
  show "getNode ringAB ''tag0'' = Inr (Some nodeB)"
    by (simp add: lookup_eval ringAB_def crc32_tag0)
  show "nodeA \<noteq> nodeB"
    by (rule nodeA_neq_nodeB)
qed

text \<open>
  The theorem of C5 on the ring of \<open>a\<close> and \<open>b\<close>: at the key \<open>user:{tag0}:0\<close>, whose
  CRC-32 lies between the two points, and at two different keys with the same CRC-32.
\<close>

theorem key_hash_is_crc32_of_raw_key_witness:
  "sorted (rubyHashRing.sortedKeys ringAB) \<and> rubyHashRing.sortedKeys ringAB \<noteq> [] \<and>
   sorted (rubyStyleHash.sortedKeys hashAB) \<and> rubyStyleHash.sortedKeys hashAB \<noteq> [] \<and>
   newRubyHashRing configsAB 1 = Inr ringAB \<and> (0 :: int) < 1 \<and> configsAB \<noteq> [] \<and>
   ChecksumIEEE (bytesOf ''user:{tag0}:0'') = 0x3d8e1ca9 \<and>
   predecessorPoint (rubyHashRing.sortedKeys ringAB) 0x3d8e1ca9 = 0x1311656a \<and>
   lowerBoundPoint (rubyStyleHash.sortedKeys hashAB) 0x3d8e1ca9 = 0x3ece1176 \<and>
   getNode ringAB ''user:{tag0}:0'' = Inr (rubyHashRing.ring ringAB 0x1311656a) \<and>
   rubyHashRing.ring ringAB 0x1311656a = Some nodeA \<and>
   Get hashAB ''user:{tag0}:0'' = Inr ''b'' \<and>
   ChecksumIEEE (bytesOf ''k97872'') = ChecksumIEEE (bytesOf ''k15860000'') \<and>
   ''k97872'' \<noteq> ''k15860000'' \<and>
   getNode ringAB ''k97872'' = getNode ringAB ''k15860000'' \<and>
   Get hashAB ''k97872'' = Get hashAB ''k15860000''"
proof -
  have e: "ChecksumIEEE (bytesOf ''k97872'') = ChecksumIEEE (bytesOf ''k15860000'')"
    by (simp only: crc32_k1 crc32_k2)
  have p: "predecessorPoint [0x1311656a, 0x3ece1176] (0x3d8e1ca9 :: uint32) = 0x1311656a"
    by (simp add: predecessorPoint_def)
  have l: "lowerBoundPoint [0x1311656a, 0x3ece1176] (0x3d8e1ca9 :: uint32) = 0x3ece1176"
    by (simp add: lowerBoundPoint_def)
  have ne: "configsAB \<noteq> []"
    by (simp add: configsAB_def)
  have c: "getNode ringAB ''k97872'' = getNode ringAB ''k15860000'' \<and>
           Get hashAB ''k97872'' = Get hashAB ''k15860000''"
    using key_hash_is_crc32_of_raw_key [of ringAB _ hashAB _ _ _ "''k97872''" "''k15860000''"] e
    by simp
  have g: "getNode ringAB ''user:{tag0}:0'' = Inr (rubyHashRing.ring ringAB 0x1311656a) \<and>
           Get hashAB ''user:{tag0}:0'' = Inr ''b''"
    using key_hash_is_crc32_of_raw_key [of ringAB "''user:{tag0}:0''" hashAB configsAB 1 ringAB]
    by (simp add: sortedKeys_ringAB sortedKeys_hashAB crc32_tagged0 p l ring_hashAB)
  from c g e p l ne show ?thesis
    by (simp add: sortedKeys_ringAB sortedKeys_hashAB crc32_tagged0 ring_ringAB
        newRubyHashRing_AB)
qed

text \<open>
  C6. After a construction that returns, the point list holds exactly
  \<open>replicas \<times> len(nodes)\<close> entries (for \<open>replicas \<ge> 1\<close>; none for \<open>replicas \<le> 0\<close>), it is
  sorted in ascending order, and it holds every inserted point as often as it was
  inserted: colliding points are not removed.
\<close>

theorem point_list_complete_sorted:
  "(newRubyHashRing cfgs reps = Inr r \<longrightarrow>
      length (rubyHashRing.sortedKeys r) = nat reps * length cfgs \<and>
      sorted (rubyHashRing.sortedKeys r) \<and>
      mset (rubyHashRing.sortedKeys r) = mset (map fst (insertions cfgs reps))) \<and>
   (newRubyStyleHash shards reps' = Inr h \<longrightarrow>
      length (rubyStyleHash.sortedKeys h) = nat reps' * length shards \<and>
      sorted (rubyStyleHash.sortedKeys h) \<and>
      mset (rubyStyleHash.sortedKeys h) = mset (map fst (shardInsertions shards reps')))"
  by (auto simp: newRubyHashRing_Inr(1) newRubyStyleHash_Inr(1) length_insertions
      length_shardInsertions)

text \<open>
  The theorem of C6 at two nodes whose virtual keys \<open>s5404:0\<close> and \<open>s7442:0\<close> hash to the
  same point: the list holds the point twice.
\<close>

theorem point_list_complete_sorted_witness:
  "newRubyHashRing configsColl 1 = Inr ringColl \<and>
   newRubyStyleHash [''s5404'', ''s7442''] 1 = Inr hashColl \<and>
   rubyHashRing.sortedKeys ringColl = [0xf9229426, 0xf9229426] \<and>
   length (rubyHashRing.sortedKeys ringColl) = 1 * length configsColl \<and>
   sorted (rubyHashRing.sortedKeys ringColl) \<and>
   length (rubyStyleHash.sortedKeys hashColl) = 1 * length [''s5404'', ''s7442''] \<and>
   sorted (rubyStyleHash.sortedKeys hashColl)"
  using point_list_complete_sorted
    [of configsColl 1 ringColl "[''s5404'', ''s7442'']" 1 hashColl]
    newRubyHashRing_Coll newRubyStyleHash_Coll
  by (simp add: ringColl_def)

text \<open>
  C7, as stated, fails: with a replica count of \<open>0\<close> and the nodes \<open>a\<close> and \<open>b\<close> the
  construction does not fail, it returns a ring without points.
\<close>

theorem construction_accepts_zero_replicas_counterexample:
  "(0 :: int) \<le> 0 \<and>
   newRubyHashRing configsAB 0 =
     Inr \<lparr>rubyHashRing.replicas = 0, sortedKeys = [], ring = Map.empty, nodes = [nodeA, nodeB]\<rparr>"
  by (simp add: newRubyHashRing_def configsAB_def nodeA_def nodeB_def goInt_def
      makesliceOK_def maxAlloc_def Let_def replicaLoop.simps newNode_def)

text \<open>
  C7, amended. \<open>newRubyHashRing\<close> checks nothing and has no error result. Apart from the
  fatal error \<open>out of memory\<close>, which can end any call, a call panics in \<open>make\<close>
  (capacity out of range) exactly when \<open>replicas * len(configs)\<close>, computed as a wrapping
  64-bit \<open>int\<close>, is negative or asks for more than \<open>maxAlloc\<close> bytes; it can panic in
  \<open>append\<close> exactly when that product has wrapped into range while \<open>replicas\<close> is
  positive; and it can return exactly when it does neither, the ring being the one
  \<open>newRubyHashRing\<close> gives. With a replica count of \<open>0\<close> or an empty node list the call
  does not panic, and the ring it returns has no points and \<open>getNode\<close> returns \<open>nil\<close> on
  it for every key. With a negative replica count and a non-empty node list the call
  panics whenever the product does not wrap (\<open>- 2 ^ 63 \<le> replicas * len(configs)\<close>, so
  for \<open>replicas = -1\<close>); when the product wraps into range, as for \<open>replicas = - 2 ^ 63\<close>
  with two nodes, the call returns a ring without points. A call with a positive replica
  count whose points exceed \<open>maxAlloc\<close> bytes never returns.
\<close>

theorem construction_outcome:
  "FatalOutOfMemory \<in> newRubyHashRingRuns cfgs reps \<and>
   (Panics e \<in> newRubyHashRingRuns cfgs reps \<longleftrightarrow>
      e = CapOutOfRange \<and> \<not> makesliceOK 4 (goInt (reps * int (length cfgs))) \<or>
      e = LenOutOfRange \<and> makesliceOK 4 (goInt (reps * int (length cfgs))) \<and>
        0 < reps \<and> maxAlloc < 4 * (reps * int (length cfgs))) \<and>
   (Returns r \<in> newRubyHashRingRuns cfgs reps \<longleftrightarrow>
      newRubyHashRing cfgs reps = Inr r \<and>
      (reps \<le> 0 \<or> 4 * (reps * int (length cfgs)) \<le> maxAlloc)) \<and>
   (reps = 0 \<or> cfgs = [] \<longrightarrow>
      newRubyHashRingRuns cfgs reps =
        {Returns \<lparr>rubyHashRing.replicas = reps, sortedKeys = [], ring = Map.empty,
                  nodes = map newNode cfgs\<rparr>, FatalOutOfMemory} \<and>
      getNode \<lparr>rubyHashRing.replicas = reps, sortedKeys = [], ring = Map.empty,
               nodes = map newNode cfgs\<rparr> key = Inr None) \<and>
   (reps < 0 \<and> cfgs \<noteq> [] \<and> - (2 ^ 63) \<le> reps * int (length cfgs) \<longrightarrow>
      newRubyHashRingRuns cfgs reps = {Panics CapOutOfRange, FatalOutOfMemory}) \<and>
   (0 < reps \<and> cfgs \<noteq> [] \<and> maxAlloc < 4 * (reps * int (length cfgs)) \<longrightarrow>
      (\<forall>r'. Returns r' \<notin> newRubyHashRingRuns cfgs reps)) \<and>
   newRubyHashRingRuns configsAB (- (2 ^ 63)) =
     {Returns \<lparr>rubyHashRing.replicas = - (2 ^ 63), sortedKeys = [], ring = Map.empty,
               nodes = [nodeA, nodeB]\<rparr>, FatalOutOfMemory}"
proof -
  let ?ok = "makesliceOK 4 (goInt (reps * int (length cfgs)))"
  have len: "4 * int (length (rubyHashRing.sortedKeys x)) \<le> maxAlloc \<longleftrightarrow>
             reps \<le> 0 \<or> 4 * (reps * int (length cfgs)) \<le> maxAlloc"
    if "newRubyHashRing cfgs reps = Inr x" for x
  proof (cases "reps \<le> 0")
    case True
    then show ?thesis
      by (simp add: newRubyHashRing_Inr(1) [OF that] length_insertions maxAlloc_def)
  next
    case False
    then have "int (nat reps * length cfgs) = reps * int (length cfgs)"
      by simp
    with False show ?thesis
      by (simp add: newRubyHashRing_Inr(1) [OF that] length_insertions del: of_nat_mult)
  qed
  have fatal: "FatalOutOfMemory \<in> newRubyHashRingRuns cfgs reps"
    by (simp add: newRubyHashRingRuns_def split: sum.split)
  have pan: "Panics e \<in> newRubyHashRingRuns cfgs reps \<longleftrightarrow>
      e = CapOutOfRange \<and> \<not> ?ok \<or>
      e = LenOutOfRange \<and> ?ok \<and> 0 < reps \<and> maxAlloc < 4 * (reps * int (length cfgs))"
  proof (cases ?ok)
    case False
    then show ?thesis
      by (auto simp: newRubyHashRingRuns_def newRubyHashRing_cases)
  next
    case True
    then obtain x where x: "newRubyHashRing cfgs reps = Inr x"
      by (simp add: newRubyHashRing_cases)
    show ?thesis
      using True len [OF x] by (auto simp: newRubyHashRingRuns_def x)
  qed
  have ret: "Returns r \<in> newRubyHashRingRuns cfgs reps \<longleftrightarrow>
      newRubyHashRing cfgs reps = Inr r \<and>
      (reps \<le> 0 \<or> 4 * (reps * int (length cfgs)) \<le> maxAlloc)" for r
  proof (cases "newRubyHashRing cfgs reps")
    case (Inl a)
    then show ?thesis
      by (simp add: newRubyHashRingRuns_def)
  next
    case (Inr x)
    show ?thesis
      using len [OF Inr] by (auto simp: newRubyHashRingRuns_def Inr)
  qed
  have zero: "newRubyHashRingRuns cfgs reps =
        {Returns \<lparr>rubyHashRing.replicas = reps, sortedKeys = [], ring = Map.empty,
                  nodes = map newNode cfgs\<rparr>, FatalOutOfMemory} \<and>
      getNode \<lparr>rubyHashRing.replicas = reps, sortedKeys = [], ring = Map.empty,
               nodes = map newNode cfgs\<rparr> key = Inr None"
    if z: "reps = 0 \<or> cfgs = []"
  proof -
    from z have "reps * int (length cfgs) = 0" by auto
    then have "goInt (reps * int (length cfgs)) = goInt 0"
      by (simp only:)
    then have ok: ?ok
      by (simp add: goInt_def makesliceOK_def maxAlloc_def)
    from z have "reps \<le> 0 \<or> cfgs = []" by auto
    from newRubyHashRing_empty [OF ok this] show ?thesis
      by (simp add: newRubyHashRingRuns_def getNode_def maxAlloc_def)
  qed
  have neg: "newRubyHashRingRuns cfgs reps = {Panics CapOutOfRange, FatalOutOfMemory}"
    if a: "reps < 0 \<and> cfgs \<noteq> [] \<and> - (2 ^ 63) \<le> reps * int (length cfgs)"
  proof -
    from a have "0 < int (length cfgs)" by simp
    with a have n: "reps * int (length cfgs) < 0"
      by (simp add: mult_neg_pos)
    then have "reps * int (length cfgs) < 2 ^ 63" by simp
    with a have "goInt (reps * int (length cfgs)) = reps * int (length cfgs)"
      by (intro goInt_in_range) simp_all
    with n have "\<not> ?ok"
      by (simp add: makesliceOK_def)
    then show ?thesis
      by (simp add: newRubyHashRingRuns_def newRubyHashRing_cases)
  qed
  have big: "\<forall>r'. Returns r' \<notin> newRubyHashRingRuns cfgs reps"
    if "0 < reps \<and> cfgs \<noteq> [] \<and> maxAlloc < 4 * (reps * int (length cfgs))"
    using that by (simp add: ret)
  have "goInt (- (2 ^ 63) * int (length configsAB)) = 0"
    by (simp add: configsAB_def goInt_def)
  then have "makesliceOK 4 (goInt (- (2 ^ 63) * int (length configsAB)))"
    by (simp add: makesliceOK_def maxAlloc_def)
  from newRubyHashRing_empty [OF this]
  have wrap: "newRubyHashRingRuns configsAB (- (2 ^ 63)) =
     {Returns \<lparr>rubyHashRing.replicas = - (2 ^ 63), sortedKeys = [], ring = Map.empty,
               nodes = [nodeA, nodeB]\<rparr>, FatalOutOfMemory}"
    by (simp add: newRubyHashRingRuns_def maxAlloc_def configsAB_def newNode_def nodeA_def nodeB_def)
  from fatal pan ret zero neg big wrap show ?thesis
    by (intro conjI impI) blast+
qed

text \<open>
  The theorem of C7 at the nodes \<open>a\<close> and \<open>b\<close> with the replica counts 0, -1 and 1, and
  at four nodes with the replica count \<open>2 ^ 62\<close>, where the product wraps to 0.
\<close>

theorem construction_outcome_witness:
  "newRubyHashRingRuns configsAB 0 =
     {Returns \<lparr>rubyHashRing.replicas = 0, sortedKeys = [], ring = Map.empty,
               nodes = [nodeA, nodeB]\<rparr>, FatalOutOfMemory} \<and>
   getNode \<lparr>rubyHashRing.replicas = 0, sortedKeys = [], ring = Map.empty,
            nodes = [nodeA, nodeB]\<rparr> ''user:1'' = Inr None \<and>
   (- 1 :: int) < 0 \<and> configsAB \<noteq> [] \<and> - (2 ^ 63) \<le> - 1 * int (length configsAB) \<and>
   newRubyHashRingRuns configsAB (- 1) = {Panics CapOutOfRange, FatalOutOfMemory} \<and>
   Panics CapOutOfRange \<in> newRubyHashRingRuns configsAB (- 1) \<and>
   Returns ringAB \<in> newRubyHashRingRuns configsAB 1 \<and>
   (0 :: int) < 2 ^ 62 \<and> maxAlloc < 4 * (2 ^ 62 * int (length (configsAB @ configsAB))) \<and>
   makesliceOK 4 (goInt (2 ^ 62 * int (length (configsAB @ configsAB)))) \<and>
   Panics LenOutOfRange \<in> newRubyHashRingRuns (configsAB @ configsAB) (2 ^ 62) \<and>
   Returns ringAB \<notin> newRubyHashRingRuns (configsAB @ configsAB) (2 ^ 62)"
proof -
  have l: "length configsAB = 2"
    by (simp add: configsAB_def)
  have ne: "configsAB \<noteq> []"
    by (simp add: configsAB_def)
  have n: "map newNode configsAB = [nodeA, nodeB]"
    by (simp add: configsAB_def newNode_def nodeA_def nodeB_def)
  have w: "goInt 18446744073709551616 = 0"
    by (simp add: goInt_def)
  have ok: "makesliceOK 4 (goInt (2 ^ 62 * int (length (configsAB @ configsAB))))"
    by (simp add: l w makesliceOK_def maxAlloc_def)
  have z: "newRubyHashRingRuns configsAB 0 =
     {Returns \<lparr>rubyHashRing.replicas = 0, sortedKeys = [], ring = Map.empty,
               nodes = [nodeA, nodeB]\<rparr>, FatalOutOfMemory} \<and>
   getNode \<lparr>rubyHashRing.replicas = 0, sortedKeys = [], ring = Map.empty,
            nodes = [nodeA, nodeB]\<rparr> ''user:1'' = Inr None"
    using construction_outcome [of configsAB 0 _ _ "''user:1''"] by (simp add: n)
  have m: "newRubyHashRingRuns configsAB (- 1) = {Panics CapOutOfRange, FatalOutOfMemory}"
    using construction_outcome [of configsAB "- 1"] ne by (simp add: l)
  have p: "Returns ringAB \<in> newRubyHashRingRuns configsAB 1"
    using construction_outcome [of configsAB 1 _ ringAB] newRubyHashRing_AB
    by (simp add: l maxAlloc_def)
  have g: "Panics LenOutOfRange \<in> newRubyHashRingRuns (configsAB @ configsAB) (2 ^ 62)"
    using construction_outcome [of "configsAB @ configsAB" "2 ^ 62" LenOutOfRange] ok
    by (simp add: l maxAlloc_def)
  have b: "Returns ringAB \<notin> newRubyHashRingRuns (configsAB @ configsAB) (2 ^ 62)"
    using construction_outcome [of "configsAB @ configsAB" "2 ^ 62"] ne
    by (simp add: l maxAlloc_def)
  from z m p g b ok ne show ?thesis
    by (simp add: l maxAlloc_def)
qed

text \<open>
  C8. When two insertions of a construction hash to the same point, the lookup table
  afterwards maps the point to the node of the later one (of the last insertion with that
  point); the table is the one the loops left, sorting the point list does not touch it.
\<close>

theorem later_insertion_owns_point:
  assumes "newRubyHashRing cfgs reps = Inr r"
    and "i < j" and "j < length (insertions cfgs reps)"
    and "fst (insertions cfgs reps ! i) = fst (insertions cfgs reps ! j)"
    and "\<forall>k. j < k \<and> k < length (insertions cfgs reps) \<longrightarrow>
           fst (insertions cfgs reps ! k) \<noteq> fst (insertions cfgs reps ! j)"
  shows "rubyHashRing.ring r (fst (insertions cfgs reps ! i)) = Some (snd (insertions cfgs reps ! j)) \<and>
         rubyHashRing.ring r = rubyHashRing.ring (configLoop cfgs reps
           \<lparr>rubyHashRing.replicas = reps, sortedKeys = [], ring = Map.empty, nodes = []\<rparr>)"
proof -
  have "map_of (rev (insertions cfgs reps)) (fst (insertions cfgs reps ! j)) =
      Some (snd (insertions cfgs reps ! j))"
    using assms(3) refl assms(5) by (rule map_of_rev_last_wins)
  moreover have "rubyHashRing.ring r = rubyHashRing.ring (configLoop cfgs reps
      \<lparr>rubyHashRing.replicas = reps, sortedKeys = [], ring = Map.empty, nodes = []\<rparr>)"
    using assms(1) by (auto simp: newRubyHashRing_def Let_def split: if_splits)
  ultimately show ?thesis
    by (simp add: newRubyHashRing_Inr(2) [OF assms(1)] assms(4))
qed

text \<open>The theorem of C8 at the colliding nodes \<open>s5404\<close> and \<open>s7442\<close>.\<close>

theorem later_insertion_owns_point_witness:
  "newRubyHashRing configsColl 1 = Inr ringColl \<and>
   insertions configsColl 1 = [(0xf9229426, nodeS1), (0xf9229426, nodeS2)] \<and>
   rubyHashRing.ring ringColl 0xf9229426 = Some nodeS2 \<and> nodeS1 \<noteq> nodeS2"
proof -
  have "rubyHashRing.ring ringColl (fst (insertions configsColl 1 ! 0)) =
        Some (snd (insertions configsColl 1 ! 1)) \<and>
      rubyHashRing.ring ringColl = rubyHashRing.ring (configLoop configsColl 1
        \<lparr>rubyHashRing.replicas = 1, sortedKeys = [], ring = Map.empty, nodes = []\<rparr>)"
    by (rule later_insertion_owns_point [OF newRubyHashRing_Coll])
      (simp_all add: insertions_Coll)
  then have "rubyHashRing.ring ringColl (fst (insertions configsColl 1 ! 0)) =
      Some (snd (insertions configsColl 1 ! 1))"
    by (rule conjunct1)
  then show ?thesis
    using newRubyHashRing_Coll
    by (simp add: insertions_Coll nodeS1_def nodeS2_def)
qed

text \<open>
  C9 does not hold of the code. Built from the names \<open>a\<close> and \<open>b\<close> with one replica
  each, the two implementations hold the same two points, and they resolve the raw key
  \<open>user:0\<close>, whose CRC-32 lies below both points, to different nodes: \<open>getNode\<close>, which
  searches for the predecessor as \<open>Redis::HashRing\<close> does, to \<open>b\<close>, and \<open>Get\<close>, which
  searches for the lower bound, to \<open>a\<close>.
\<close>

theorem implementations_disagree_at_user0:
  "newRubyHashRing configsAB 1 = Inr ringAB \<and>
   newRubyStyleHash (map Name configsAB) 1 = Inr hashAB \<and>
   getNode ringAB ''user:0'' = Inr (Some nodeB) \<and> shardName (Some nodeB) = ''b'' \<and>
   Get hashAB ''user:0'' = Inr ''a''"
proof -
  have "newRubyStyleHash (map Name configsAB) 1 = Inr hashAB"
    using newRubyStyleHash_AB by (simp add: configsAB_def)
  moreover have "getNode ringAB ''user:0'' = Inr (Some nodeB)"
    by (simp add: lookup_eval ringAB_def crc32_user0)
  moreover have "Get hashAB ''user:0'' = Inr ''a''"
    by (simp add: lookup_eval hashAB_def crc32_user0)
  moreover have "shardName (Some nodeB) = ''b''"
    by (simp add: shardName_def nodeB_def)
  ultimately show ?thesis
    using newRubyHashRing_AB by simp
qed

text \<open>
  C10. On a ring built by \<open>newRubyHashRing\<close> that holds a point, \<open>binarySearch\<close> returns
  without a panic a value between \<open>-1\<close> and \<open>len(sortedKeys) - 1\<close>, the wrap adjustment
  turns it into an index between \<open>0\<close> and \<open>len(sortedKeys) - 1\<close>, every element of
  \<open>sortedKeys\<close> is a key of the \<open>ring\<close> map, and \<open>getNode\<close> returns a node of that map.
\<close>

theorem getNode_in_bounds:
  assumes "newRubyHashRing cfgs reps = Inr r" and "rubyHashRing.sortedKeys r \<noteq> []"
  shows "(\<exists>idx. binarySearch r v = Inr idx \<and> - 1 \<le> idx
            \<and> idx \<le> int (length (rubyHashRing.sortedKeys r)) - 1
            \<and> 0 \<le> (if idx < 0 then int (length (rubyHashRing.sortedKeys r)) - 1 else idx)
            \<and> (if idx < 0 then int (length (rubyHashRing.sortedKeys r)) - 1 else idx)
                 \<le> int (length (rubyHashRing.sortedKeys r)) - 1) \<and>
         set (rubyHashRing.sortedKeys r) \<subseteq> dom (rubyHashRing.ring r) \<and>
         (\<exists>n. getNode r key = Inr (Some n) \<and> n \<in> ran (rubyHashRing.ring r))"
proof -
  let ?keys = "rubyHashRing.sortedKeys r"
  have len: "0 < int (length ?keys)"
    using assms(2) by simp
  obtain idx where idx: "binarySearch r v = Inr idx" "- 1 \<le> idx" "idx \<le> int (length ?keys) - 1"
    using binarySearchLoop_bounds [of 0 "int (length ?keys)" ?keys v]
    by (auto simp: binarySearch_def)
  have srt: "sorted ?keys"
    using assms(1) by (rule newRubyHashRing_sorted)
  have dm: "dom (rubyHashRing.ring r) = set ?keys"
    using assms(1) by (rule newRubyHashRing_dom)
  have "predecessorPoint ?keys (ChecksumIEEE (bytesOf key)) \<in> dom (rubyHashRing.ring r)"
    unfolding dm using srt assms(2) by (rule predecessorPoint_in_set)
  then obtain n where n: "rubyHashRing.ring r (predecessorPoint ?keys (ChecksumIEEE (bytesOf key))) = Some n"
    by blast
  then have "getNode r key = Inr (Some n)" "n \<in> ran (rubyHashRing.ring r)"
    by (simp_all add: getNode_sorted [OF srt assms(2)] ranI)
  with idx len dm show ?thesis
    by auto
qed

text \<open>The theorem of C10 at the ring of the nodes \<open>a\<close> and \<open>b\<close> with one replica each.\<close>

theorem getNode_in_bounds_witness:
  "newRubyHashRing configsAB 1 = Inr ringAB \<and> rubyHashRing.sortedKeys ringAB \<noteq> [] \<and>
   binarySearch ringAB 0 = Inr (- 1) \<and> binarySearch ringAB 0xe8b7be43 = Inr 1 \<and>
   set (rubyHashRing.sortedKeys ringAB) \<subseteq> dom (rubyHashRing.ring ringAB) \<and>
   getNode ringAB ''a'' = Inr (Some nodeB) \<and> nodeB \<in> ran (rubyHashRing.ring ringAB)"
proof -
  have ne: "rubyHashRing.sortedKeys ringAB \<noteq> []"
    by (simp add: ringAB_def)
  have "binarySearch ringAB 0 = Inr (- 1)" "binarySearch ringAB 0xe8b7be43 = Inr 1"
    by (simp_all add: lookup_eval ringAB_def)
  moreover have "nodeB \<in> ran (rubyHashRing.ring ringAB)"
    by (rule ranI [of _ "0x3ece1176"]) (simp add: ringAB_def)
  ultimately show ?thesis
    using getNode_in_bounds [OF newRubyHashRing_AB ne, of 0 "''a''"] newRubyHashRing_AB ne
      getNode_AB_a
    by simp
qed

end
